theory Spec2Isabelle
  imports Main "HOL-Library.Word"
begin

section \<open>Energy Model of CPUs: data model\<close>

text \<open>
  Shallow embedding of \<^verbatim>\<open>kernel/power/energy_model.c\<close>. The target is a 64-bit
  kernel (LP64), so \<^verbatim>\<open>unsigned long\<close> and \<^verbatim>\<open>u64\<close> are both 64-bit words and
  \<^verbatim>\<open>int\<close>/\<^verbatim>\<open>unsigned int\<close> are 32-bit words. CPU numbers are small naturals
  (below \<^verbatim>\<open>nr_cpu_ids\<close>), error codes are integers.
\<close>

type_synonym u64 = "64 word"
type_synonym u32 = "32 word"

text \<open>\<^verbatim>\<open>struct em_cap_state\<close>: one capacity state of a performance domain.\<close>

record em_cap_state =
  frequency :: u64
  power_cs :: u64
  cost :: u64

text \<open>
  A \<^verbatim>\<open>cpumask_t\<close> is a bitmap with one bit per possible CPU; its length is
  \<^verbatim>\<open>nr_cpu_ids\<close>. \<^verbatim>\<open>for_each_cpu\<close> visits the set bits in increasing order and
  \<^verbatim>\<open>cpumask_first\<close> returns the first set bit, or \<^verbatim>\<open>nr_cpu_ids\<close> when no bit is set.
\<close>

type_synonym cpumask = "bool list"

definition for_each_cpu :: "cpumask \<Rightarrow> nat list" where
  "for_each_cpu msk = filter (\<lambda>cpu. msk ! cpu) [0..<length msk]"

definition cpumask_first :: "cpumask \<Rightarrow> nat" where
  "cpumask_first msk = (case for_each_cpu msk of [] \<Rightarrow> length msk | cpu # _ \<Rightarrow> cpu)"

text \<open>
  \<^verbatim>\<open>struct em_perf_domain\<close>: the table, its length and the CPUs of the domain.
  The embedded kobject carries no data of the model.
\<close>

record em_perf_domain =
  table :: "em_cap_state list"
  nr_cap_states :: u32
  cpus :: cpumask

text \<open>The messages printed by the file (\<^verbatim>\<open>pr_err\<close> and \<^verbatim>\<open>pr_warn\<close>).\<close>

datatype printk =
    Err_invalid_cap_state nat int
  | Err_non_increasing_freq nat u64
  | Err_invalid_power nat u64
  | Warn_non_monotonic nat nat
  | Err_kobject_init_and_add nat int
  | Err_same_capacity cpumask

text \<open>
  The state the file works on: the per-CPU pointers \<^verbatim>\<open>em_data\<close> (\<open>None\<close> is NULL), the
  static pointer \<^verbatim>\<open>em_kobject\<close> (only whether it is set matters), the performance domains
  that have been allocated and kept (a pointer is an index into this list, so two slots
  holding the same index share one object), the state of the driver behind the
  callback, the kernel log, and the trace of the calls made to the callback (the value of
  \<^verbatim>\<open>*freq\<close> on entry and the CPU).
\<close>

record 'd em_world =
  em_data :: "nat \<Rightarrow> nat option"
  em_kobject :: bool
  pd_heap :: "em_perf_domain list"
  driver :: 'd
  klog :: "printk list"
  cb_calls :: "(u64 \<times> nat) list"

text \<open>
  \<^verbatim>\<open>struct em_data_callback\<close>. \<^verbatim>\<open>active_power(&power, &freq, cpu)\<close> receives pointers
  to two locals, so it is a function of their current contents, the CPU and the driver's
  own state, and returns the new driver state, the return code and the new contents of
  \<^verbatim>\<open>power\<close> and \<^verbatim>\<open>freq\<close>. A NULL function pointer is \<open>None\<close>.
\<close>

type_synonym 'd active_power_fn = "'d \<Rightarrow> u64 \<Rightarrow> u64 \<Rightarrow> nat \<Rightarrow> 'd \<times> int \<times> u64 \<times> u64"

record 'd em_data_callback =
  active_power :: "'d active_power_fn option"

text \<open>
  What the rest of the kernel decides: whether the allocations succeed, the results of
  the kobject calls, the capacity of each CPU, and the indeterminate initial content of
  the uninitialised local \<^verbatim>\<open>power\<close> of \<^verbatim>\<open>em_create_pd\<close>.
\<close>

record em_env =
  kzalloc_ok :: bool
  kcalloc_mem_ok :: bool
  kobject_create_ok :: bool
  kobject_init_and_add_ret :: int
  arch_scale_cpu_capacity :: "nat \<Rightarrow> u64"
  power_uninit :: u64

definition ULONG_MAX :: u64 where
  "ULONG_MAX = 0xFFFFFFFFFFFFFFFF"

definition EINVAL :: int where "EINVAL = 22"
definition EEXIST :: int where "EEXIST = 17"
definition ENODEV :: int where "ENODEV = 19"

text \<open>
  Modelled from the spec: \<^verbatim>\<open>EM_CPU_MAX_POWER\<close> is defined in
  \<^verbatim>\<open>include/linux/energy_model.h\<close>; the spec calls it a fixed bound, the limit of 16 bits,
  as does the comment above its use.
\<close>

definition EM_CPU_MAX_POWER :: u64 where
  "EM_CPU_MAX_POWER = 0xFFFF"

text \<open>
  \<^verbatim>\<open>kcalloc(n, size, flags)\<close> (\<^verbatim>\<open>include/linux/slab.h\<close>) returns NULL when \<open>n * size\<close>
  overflows \<^verbatim>\<open>size_t\<close>, and otherwise when no memory is available. Its first argument
  is the \<^verbatim>\<open>int nr_states\<close> converted to \<^verbatim>\<open>size_t\<close>, that is sign-extended.
\<close>

definition kcalloc :: "em_env \<Rightarrow> u64 \<Rightarrow> nat \<Rightarrow> bool" where
  "kcalloc env n sz =
     (if sz \<noteq> 0 \<and> unat n > (2 ^ 64 - 1) div sz then False else kcalloc_mem_ok env)"

definition sizeof_em_cap_state :: nat where
  "sizeof_em_cap_state = 24"

text \<open>\<^verbatim>\<open>div64_u64\<close>: unsigned 64-bit division. No caller below passes a zero divisor.\<close>

definition div64_u64 :: "u64 \<Rightarrow> u64 \<Rightarrow> u64" where
  "div64_u64 dividend divisor = dividend div divisor"

section \<open>em_create_pd\<close>

text \<open>The locals of the first loop of \<^verbatim>\<open>em_create_pd\<close>.\<close>

record em_locals =
  l_i :: nat
  l_freq :: u64
  l_power :: u64
  l_prev_freq :: u64
  l_prev_opp_eff :: u64
  l_table :: "em_cap_state list"

text \<open>
  One iteration of the loop that builds the capacity states, with its increment
  \<^verbatim>\<open>i++, freq++\<close>. \<open>Inl\<close> is a jump to \<^verbatim>\<open>free_cs_table\<close>.
\<close>

definition em_cap_step ::
  "'d active_power_fn \<Rightarrow> nat \<Rightarrow> em_locals \<Rightarrow> 'd em_world \<Rightarrow> 'd em_world + em_locals \<times> 'd em_world"
where
  "em_cap_step cb_active_power cpu l w =
     (case cb_active_power (driver w) (l_power l) (l_freq l) cpu of
        (d, ret, pwr, freq) \<Rightarrow>
          let w1 = w\<lparr>driver := d, cb_calls := cb_calls w @ [(l_freq l, cpu)]\<rparr> in
          if ret \<noteq> 0 then
            Inl (w1\<lparr>klog := klog w1 @ [Err_invalid_cap_state cpu ret]\<rparr>)
          else if freq \<le> l_prev_freq l then
            Inl (w1\<lparr>klog := klog w1 @ [Err_non_increasing_freq cpu freq]\<rparr>)
          else if pwr = 0 \<or> pwr > EM_CPU_MAX_POWER then
            Inl (w1\<lparr>klog := klog w1 @ [Err_invalid_power cpu pwr]\<rparr>)
          else
            let t = (l_table l)[l_i l := (l_table l ! l_i l)\<lparr>power_cs := pwr, frequency := freq\<rparr>];
                opp_eff = freq div pwr;
                w2 = (if opp_eff \<ge> l_prev_opp_eff l
                      then w1\<lparr>klog := klog w1 @ [Warn_non_monotonic cpu (l_i l)]\<rparr>
                      else w1)
            in Inr (\<lparr>l_i = l_i l + 1, l_freq = freq + 1, l_power = pwr,
                      l_prev_freq = freq, l_prev_opp_eff = opp_eff, l_table = t\<rparr>, w2))"

function em_cap_loop ::
  "'d active_power_fn \<Rightarrow> nat \<Rightarrow> nat \<Rightarrow> em_locals \<Rightarrow> 'd em_world \<Rightarrow> 'd em_world + em_locals \<times> 'd em_world"
where
  "em_cap_loop cb_active_power cpu nr_states l w =
     (if l_i l < nr_states then
        (case em_cap_step cb_active_power cpu l w of
           Inl w' \<Rightarrow> Inl w'
         | Inr (l', w') \<Rightarrow> em_cap_loop cb_active_power cpu nr_states l' w')
      else Inr (l, w))"
  by pat_completeness auto
termination
  by (relation "measure (\<lambda>(f, cpu, n, l, w). n - l_i l)")
     (auto simp: em_cap_step_def Let_def split: prod.splits if_splits)

declare em_cap_loop.simps [simp del]

text \<open>
  The value of \<^verbatim>\<open>freq\<close> at the head of iteration \<open>j\<close>, given the table built so far: 0
  at first, then the frequency recorded by the previous iteration, incremented by the
  loop's \<^verbatim>\<open>freq++\<close>.
\<close>

definition em_floor :: "em_cap_state list \<Rightarrow> nat \<Rightarrow> u64" where
  "em_floor t j = (if j = 0 then 0 else frequency (t ! (j - 1)) + 1)"

text \<open>The invariant of the loop at the head of iteration \<open>l_i l\<close>.\<close>

definition em_cap_inv :: "nat \<Rightarrow> (u64 \<times> nat) list \<Rightarrow> nat \<Rightarrow> em_locals \<Rightarrow> 'd em_world \<Rightarrow> bool" where
  "em_cap_inv cpu calls0 n l w \<longleftrightarrow>
     l_i l \<le> n \<and> length (l_table l) = n \<and>
     (\<forall>j<l_i l. power_cs (l_table l ! j) \<noteq> 0 \<and> power_cs (l_table l ! j) \<le> EM_CPU_MAX_POWER \<and>
        frequency (l_table l ! j) \<noteq> 0 \<and>
        frequency (l_table l ! j) \<le> l_prev_freq l \<and> cost (l_table l ! j) = 0) \<and>
     (\<forall>j<l_i l. \<forall>k<j. frequency (l_table l ! k) < frequency (l_table l ! j)) \<and>
     l_freq l = em_floor (l_table l) (l_i l) \<and>
     l_prev_freq l = (if l_i l = 0 then 0 else frequency (l_table l ! (l_i l - 1))) \<and>
     (\<forall>j<n. l_i l \<le> j \<longrightarrow> cost (l_table l ! j) = 0) \<and>
     cb_calls w = calls0 @ map (\<lambda>j. (em_floor (l_table l) j, cpu)) [0..<l_i l]"

text \<open>The loop that computes the cost of each capacity state.\<close>

function em_cost_loop :: "u64 \<Rightarrow> nat \<Rightarrow> nat \<Rightarrow> em_cap_state list \<Rightarrow> em_cap_state list" where
  "em_cost_loop fmax nr_states i t =
     (if i < nr_states then
        em_cost_loop fmax nr_states (Suc i)
          (t[i := (t ! i)\<lparr>cost := div64_u64 (fmax * power_cs (t ! i)) (frequency (t ! i))\<rparr>])
      else t)"
  by pat_completeness auto
termination
  by (relation "measure (\<lambda>(fmax, n, i, t). n - i)") auto

declare em_cost_loop.simps [simp del]

text \<open>
  \<^verbatim>\<open>em_create_pd\<close> returns the new domain's pointer, or \<open>None\<close> for NULL. The table is
  \<^verbatim>\<open>kcalloc\<close>ed, so it starts as \<open>nr_states\<close> zeroed entries. A table or domain that is
  freed again leaves no trace in the state. The read of \<^verbatim>\<open>table[nr_states - 1]\<close> is out
  of bounds for \<open>nr_states = 0\<close>; the only caller excludes that value, and the second loop
  does not use \<open>fmax\<close> then.
\<close>

definition em_locals_init :: "em_env \<Rightarrow> nat \<Rightarrow> em_locals" where
  "em_locals_init env n =
     \<lparr>l_i = 0, l_freq = 0, l_power = power_uninit env, l_prev_freq = 0,
      l_prev_opp_eff = ULONG_MAX,
      l_table = replicate n \<lparr>frequency = 0, power_cs = 0, cost = 0\<rparr>\<rparr>"

definition em_create_pd ::
  "em_env \<Rightarrow> cpumask \<Rightarrow> u32 \<Rightarrow> 'd em_data_callback \<Rightarrow> 'd em_world \<Rightarrow> nat option \<times> 'd em_world"
where
  "em_create_pd env span nr_states cb w =
     (let cpu = cpumask_first span in
      case active_power cb of
        None \<Rightarrow> (None, w)
      | Some cb_active_power \<Rightarrow>
          if \<not> kzalloc_ok env then (None, w)
          else if \<not> kcalloc env (scast nr_states) sizeof_em_cap_state then (None, w)
          else
            let n = nat (sint nr_states) in
            (case em_cap_loop cb_active_power cpu n (em_locals_init env n) w of
               Inl w' \<Rightarrow> (None, w')
             | Inr (l, w') \<Rightarrow>
                 let fmax = (if n = 0 then 0 else frequency (l_table l ! (n - 1)));
                     t = em_cost_loop fmax n 0 (l_table l);
                     pd = \<lparr>table = t, nr_cap_states = nr_states, cpus = span\<rparr>;
                     ret = kobject_init_and_add_ret env;
                     w'' = (if ret \<noteq> 0
                            then w'\<lparr>klog := klog w' @ [Err_kobject_init_and_add cpu ret]\<rparr>
                            else w')
                 in (Some (length (pd_heap w'')), w''\<lparr>pd_heap := pd_heap w'' @ [pd]\<rparr>)))"

section \<open>em_cpu_get and em_register_perf_domain\<close>

definition em_cpu_get :: "'d em_world \<Rightarrow> nat \<Rightarrow> nat option" where
  "em_cpu_get w cpu = em_data w cpu"

text \<open>
  The first \<^verbatim>\<open>for_each_cpu\<close> loop of \<^verbatim>\<open>em_register_perf_domain\<close>: for each CPU in turn,
  the check that it has no domain yet and then the check of its capacity against the
  previous one. The result is the error code and the log, or \<open>prev_cap\<close> at the end.
\<close>

fun em_check_span ::
  "em_env \<Rightarrow> cpumask \<Rightarrow> 'd em_world \<Rightarrow> u64 \<Rightarrow> nat list \<Rightarrow> int \<times> 'd em_world"
where
  "em_check_span env span w prev_cap [] = (0, w)"
| "em_check_span env span w prev_cap (cpu # rest) =
     (if em_data w cpu \<noteq> None then (- EEXIST, w)
      else
        let cap = arch_scale_cpu_capacity env cpu in
        if prev_cap \<noteq> 0 \<and> prev_cap \<noteq> cap then
          (- EINVAL, w\<lparr>klog := klog w @ [Err_same_capacity span]\<rparr>)
        else em_check_span env span w cap rest)"

text \<open>The second loop: \<^verbatim>\<open>smp_store_release(per_cpu_ptr(&em_data, cpu), pd)\<close>.\<close>

fun em_publish :: "nat \<Rightarrow> 'd em_world \<Rightarrow> nat list \<Rightarrow> 'd em_world" where
  "em_publish pd w [] = w"
| "em_publish pd w (cpu # rest) = em_publish pd (w\<lparr>em_data := (em_data w)(cpu \<mapsto> pd)\<rparr>) rest"

definition em_register_perf_domain ::
  "em_env \<Rightarrow> cpumask option \<Rightarrow> u32 \<Rightarrow> 'd em_data_callback option \<Rightarrow> 'd em_world \<Rightarrow> int \<times> 'd em_world"
where
  "em_register_perf_domain env span nr_states cb w =
     (case (span, cb) of
        (Some msk, Some c) \<Rightarrow>
          if nr_states = 0 then (- EINVAL, w)
          else if \<not> em_kobject w \<and> \<not> kobject_create_ok env then (- ENODEV, w)
          else
            let w0 = w\<lparr>em_kobject := True\<rparr> in
            (case em_check_span env msk w0 0 (for_each_cpu msk) of
               (ret, w1) \<Rightarrow>
                 if ret \<noteq> 0 then (ret, w1)
                 else
                   (case em_create_pd env msk nr_states c w1 of
                      (None, w2) \<Rightarrow> (- EINVAL, w2)
                    | (Some pd, w2) \<Rightarrow> (0, em_publish pd w2 (for_each_cpu msk))))
      | _ \<Rightarrow> (- EINVAL, w))"

section \<open>A driver and a machine to run the code on\<close>

text \<open>
  A callback in the style of the cpufreq drivers: the table of operating points of the
  CPU, as (power, frequency) pairs in increasing order of frequency, is searched for the
  first frequency at or above \<^verbatim>\<open>*freq\<close>; if there is none the callback fails with
  \<^verbatim>\<open>-EINVAL\<close> and leaves its arguments alone. The driver has no state of its own.
\<close>

definition opp_active_power :: "(u64 \<times> u64) list \<Rightarrow> unit active_power_fn" where
  "opp_active_power opps d pwr freq cpu =
     (case filter (\<lambda>(p, f). freq \<le> f) opps of
        [] \<Rightarrow> (d, - EINVAL, pwr, freq)
      | (p, f) # _ \<Rightarrow> (d, 0, p, f))"

definition opp_cb :: "(u64 \<times> u64) list \<Rightarrow> unit em_data_callback" where
  "opp_cb opps = \<lparr>active_power = Some (opp_active_power opps)\<rparr>"

text \<open>A kernel where every allocation and kobject call succeeds and all CPUs have capacity 1024.\<close>

definition env_ok :: em_env where
  "env_ok = \<lparr>kzalloc_ok = True, kcalloc_mem_ok = True, kobject_create_ok = True,
             kobject_init_and_add_ret = 0, arch_scale_cpu_capacity = (\<lambda>cpu. 1024),
             power_uninit = 0\<rparr>"

text \<open>The state at boot: no domain registered, nothing allocated, nothing logged.\<close>

definition world_boot :: "unit em_world" where
  "world_boot = \<lparr>em_data = (\<lambda>cpu. None), em_kobject = False, pd_heap = [], driver = (),
                 klog = [], cb_calls = []\<rparr>"

text \<open>
  The state after the two CPUs 0 and 1 of a four-CPU machine have been registered at boot
  with the four operating points (10, 100), (15, 200), (25, 400) and (60, 800).
\<close>

definition world_two_cpus :: "unit em_world" where
  "world_two_cpus =
     \<lparr>em_data = (\<lambda>cpu. None)(0 \<mapsto> 0, 1 \<mapsto> 0), em_kobject = True,
      pd_heap = [\<lparr>table = [\<lparr>frequency = 100, power_cs = 10, cost = 80\<rparr>,
                           \<lparr>frequency = 200, power_cs = 15, cost = 60\<rparr>,
                           \<lparr>frequency = 400, power_cs = 25, cost = 50\<rparr>,
                           \<lparr>frequency = 800, power_cs = 60, cost = 60\<rparr>],
                  nr_cap_states = 4, cpus = [True, True, False, False]\<rparr>],
      driver = (),
      klog = [Warn_non_monotonic 0 1, Warn_non_monotonic 0 2],
      cb_calls = [(0, 0), (101, 0), (201, 0), (401, 0)]\<rparr>"

text \<open>
  A second driver, with state: it replays a recorded sequence of answers (return code,
  power, frequency), one per call, whatever it is asked; when the recording is exhausted
  it fails with \<^verbatim>\<open>-EINVAL\<close>.
\<close>

definition seq_active_power :: "(int \<times> u64 \<times> u64) list active_power_fn" where
  "seq_active_power d pwr freq cpu =
     (case d of
        [] \<Rightarrow> ([], - EINVAL, pwr, freq)
      | (ret, p, f) # rest \<Rightarrow> (rest, ret, p, f))"

definition seq_cb :: "(int \<times> u64 \<times> u64) list em_data_callback" where
  "seq_cb = \<lparr>active_power = Some seq_active_power\<rparr>"

definition world_seq :: "(int \<times> u64 \<times> u64) list \<Rightarrow> (int \<times> u64 \<times> u64) list em_world" where
  "world_seq answers = \<lparr>em_data = (\<lambda>cpu. None), em_kobject = False, pd_heap = [],
                          driver = answers, klog = [], cb_calls = []\<rparr>"

text \<open>
  The state after a registration of CPU 0 with two states for which the replaying driver
  answered (10, 100) and then (15, 90): the second frequency is not above the first.
\<close>

definition world_seq_failed :: "(int \<times> u64 \<times> u64) list em_world" where
  "world_seq_failed =
     \<lparr>em_data = (\<lambda>cpu. None), em_kobject = True, pd_heap = [], driver = [],
      klog = [Err_non_increasing_freq 0 90], cb_calls = [(0, 0), (101, 0)]\<rparr>"

text \<open>
  The state after CPU 0 of a one-CPU machine has been registered at boot with the single
  operating point of power 2 and frequency \<open>2 ^ 63\<close>.
\<close>

definition world_one_fast_cpu :: "unit em_world" where
  "world_one_fast_cpu =
     \<lparr>em_data = (\<lambda>cpu. None)(0 \<mapsto> 0), em_kobject = True,
      pd_heap = [\<lparr>table = [\<lparr>frequency = 9223372036854775808, power_cs = 2, cost = 0\<rparr>],
                  nr_cap_states = 1, cpus = [True]\<rparr>],
      driver = (), klog = [], cb_calls = [(0, 0)]\<rparr>"

text \<open>
  The state after a registration of CPU 0 with one state for which the replaying driver
  answered power 0 and frequency 0.
\<close>

definition world_seq_nonincreasing :: "(int \<times> u64 \<times> u64) list em_world" where
  "world_seq_nonincreasing =
     \<lparr>em_data = (\<lambda>cpu. None), em_kobject = True, pd_heap = [], driver = [],
      klog = [Err_non_increasing_freq 0 0], cb_calls = [(0, 0)]\<rparr>"



text \<open>A callback structure whose \<^verbatim>\<open>active_power\<close> is NULL.\<close>

definition inert_cb :: "unit em_data_callback" where
  "inert_cb = \<lparr>active_power = None\<rparr>"

text \<open>
  The state after a registration at boot, on a two-CPU machine, of a span with no bit
  set, with the single operating point (10, 100): a domain has been allocated, the
  callback has been called for CPU number \<^verbatim>\<open>nr_cpu_ids\<close>, and no CPU points to the domain.
\<close>

definition world_no_cpu :: "unit em_world" where
  "world_no_cpu =
     \<lparr>em_data = (\<lambda>cpu. None), em_kobject = True,
      pd_heap = [\<lparr>table = [\<lparr>frequency = 100, power_cs = 10, cost = 10\<rparr>],
                  nr_cap_states = 1, cpus = [False, False]\<rparr>],
      driver = (), klog = [], cb_calls = [(0, 2)]\<rparr>"

section \<open>The loop that builds the table\<close>

lemma em_cap_step_Inr:
  assumes "em_cap_step f cpu l w = Inr (l', w')"
  shows "\<exists>d pwr freq. f (driver w) (l_power l) (l_freq l) cpu = (d, 0, pwr, freq) \<and>
           l_prev_freq l < freq \<and> pwr \<noteq> 0 \<and> pwr \<le> EM_CPU_MAX_POWER \<and>
           l' = \<lparr>l_i = Suc (l_i l), l_freq = freq + 1, l_power = pwr, l_prev_freq = freq,
                 l_prev_opp_eff = freq div pwr,
                 l_table = (l_table l)[l_i l := (l_table l ! l_i l)\<lparr>power_cs := pwr, frequency := freq\<rparr>]\<rparr> \<and>
           cb_calls w' = cb_calls w @ [(l_freq l, cpu)] \<and>
           em_data w' = em_data w \<and> pd_heap w' = pd_heap w \<and> em_kobject w' = em_kobject w"
  using assms
  by (auto simp: em_cap_step_def Let_def split: prod.splits if_splits)

lemma em_cap_step_Inl:
  assumes "em_cap_step f cpu l w = Inl w'"
  shows "em_data w' = em_data w \<and> pd_heap w' = pd_heap w \<and> em_kobject w' = em_kobject w"
  using assms
  by (auto simp: em_cap_step_def Let_def split: prod.splits if_splits)

lemma em_cap_loop_Inl:
  "em_cap_loop f cpu n l w = Inl w' \<Longrightarrow>
     em_data w' = em_data w \<and> pd_heap w' = pd_heap w \<and> em_kobject w' = em_kobject w"
proof (induction f cpu n l w rule: em_cap_loop.induct)
  case (1 f cpu n l w)
  show ?case
  proof (cases "l_i l < n")
    case False
    with "1.prems" show ?thesis by (simp add: em_cap_loop.simps)
  next
    case True
    show ?thesis
    proof (cases "em_cap_step f cpu l w")
      case (Inl w1)
      with True "1.prems" have "w' = w1" by (simp add: em_cap_loop.simps)
      with Inl show ?thesis by (simp add: em_cap_step_Inl)
    next
      case (Inr p)
      obtain l1 w1 where p: "p = (l1, w1)" by (cases p)
      from Inr p True "1.prems" have "em_cap_loop f cpu n l1 w1 = Inl w'"
        by (simp add: em_cap_loop.simps)
      from "1.IH"[OF True Inr[unfolded p] refl this] em_cap_step_Inr[OF Inr[unfolded p]]
      show ?thesis by auto
    qed
  qed
qed

lemma em_cap_loop_invariant:
  assumes run: "em_cap_loop f cpu n l w = Inr (l', w')"
    and init: "P l w"
    and step: "\<forall>l w l1 w1. P l w \<longrightarrow> l_i l < n \<longrightarrow> em_cap_step f cpu l w = Inr (l1, w1) \<longrightarrow> P l1 w1"
  shows "P l' w' \<and> \<not> l_i l' < n"
  using run init step
proof (induction f cpu n l w rule: em_cap_loop.induct)
  case (1 f cpu n l w)
  show ?case
  proof (cases "l_i l < n")
    case False
    with "1.prems" show ?thesis by (simp add: em_cap_loop.simps)
  next
    case True
    show ?thesis
    proof (cases "em_cap_step f cpu l w")
      case (Inl w1)
      with True "1.prems" show ?thesis by (simp add: em_cap_loop.simps)
    next
      case (Inr p)
      obtain l1 w1 where p: "p = (l1, w1)" by (cases p)
      from Inr p True "1.prems" have r: "em_cap_loop f cpu n l1 w1 = Inr (l', w')"
        by (simp add: em_cap_loop.simps)
      have "P l1 w1" using "1.prems"(2) True Inr p "1.prems"(3) by blast
      from "1.IH"[OF True Inr[unfolded p] refl r this] "1.prems"(3)
      show ?thesis by blast
    qed
  qed
qed

lemma em_cap_inv_init: "em_cap_inv cpu (cb_calls w) n (em_locals_init env n) w"
  by (simp add: em_cap_inv_def em_locals_init_def em_floor_def)

lemma em_cap_inv_step:
  assumes inv: "em_cap_inv cpu calls0 n l w" and lt: "l_i l < n"
    and st: "em_cap_step f cpu l w = Inr (l1, w1)"
  shows "em_cap_inv cpu calls0 n l1 w1"
proof -
  from em_cap_step_Inr[OF st] obtain d pwr freq where
    fr: "l_prev_freq l < freq" and p0: "pwr \<noteq> 0" and pm: "pwr \<le> EM_CPU_MAX_POWER"
    and l1: "l1 = \<lparr>l_i = Suc (l_i l), l_freq = freq + 1, l_power = pwr, l_prev_freq = freq,
                 l_prev_opp_eff = freq div pwr,
                 l_table = (l_table l)[l_i l := (l_table l ! l_i l)\<lparr>power_cs := pwr, frequency := freq\<rparr>]\<rparr>"
    and calls: "cb_calls w1 = cb_calls w @ [(l_freq l, cpu)]"
    by blast
  define t where "t = l_table l"
  define i where "i = l_i l"
  define t1 where "t1 = t[i := (t ! i)\<lparr>power_cs := pwr, frequency := freq\<rparr>]"
  note I = inv[unfolded em_cap_inv_def, folded t_def i_def]
  have len: "length t = n" and i: "i < n" using I lt by (simp_all add: i_def)
  have oldinv: "\<And>j. j < i \<Longrightarrow> power_cs (t ! j) \<noteq> 0 \<and> power_cs (t ! j) \<le> EM_CPU_MAX_POWER \<and>
        frequency (t ! j) \<noteq> 0 \<and>
        frequency (t ! j) \<le> l_prev_freq l \<and> cost (t ! j) = 0"
    using I by blast
  have oldsorted: "\<And>j k. j < i \<Longrightarrow> k < j \<Longrightarrow> frequency (t ! k) < frequency (t ! j)"
    using I by blast
  have oldfloor: "l_freq l = em_floor t i" using I by blast
  have oldcost: "\<And>j. j < n \<Longrightarrow> i \<le> j \<Longrightarrow> cost (t ! j) = 0" using I by blast
  have oldcalls: "cb_calls w = calls0 @ map (\<lambda>j. (em_floor t j, cpu)) [0..<i]" using I by blast
  have old: "\<And>j. j < i \<Longrightarrow> t1 ! j = t ! j" by (simp add: t1_def)
  have new: "t1 ! i = (t ! i)\<lparr>power_cs := pwr, frequency := freq\<rparr>" using len i by (simp add: t1_def)
  have later: "\<And>j. i < j \<Longrightarrow> t1 ! j = t ! j" by (simp add: t1_def)
  have below: "\<And>j. j < i \<Longrightarrow> frequency (t ! j) \<le> l_prev_freq l"
    using oldinv by blast
  have fl: "\<And>j. j \<le> i \<Longrightarrow> em_floor t1 j = em_floor t j"
    by (simp add: em_floor_def old)
  have f0: "freq \<noteq> 0" using fr by auto
  have c1: "\<forall>j<Suc i. power_cs (t1 ! j) \<noteq> 0 \<and> power_cs (t1 ! j) \<le> EM_CPU_MAX_POWER \<and>
        frequency (t1 ! j) \<noteq> 0 \<and>
        frequency (t1 ! j) \<le> freq \<and> cost (t1 ! j) = 0"
  proof (intro allI impI)
    fix j assume "j < Suc i"
    then consider "j < i" | "j = i" by linarith
    then show "power_cs (t1 ! j) \<noteq> 0 \<and> power_cs (t1 ! j) \<le> EM_CPU_MAX_POWER \<and>
        frequency (t1 ! j) \<noteq> 0 \<and>
        frequency (t1 ! j) \<le> freq \<and> cost (t1 ! j) = 0"
    proof cases
      case 1
      with fr oldinv[OF 1] show ?thesis
        by (auto simp: old)
    next
      case 2
      with i p0 pm f0 oldcost[of i] show ?thesis
        by (simp add: new)
    qed
  qed
  have c2: "\<forall>j<Suc i. \<forall>k<j. frequency (t1 ! k) < frequency (t1 ! j)"
  proof (intro allI impI)
    fix j k assume j: "j < Suc i" and k: "k < j"
    from j consider "j < i" | "j = i" by linarith
    then show "frequency (t1 ! k) < frequency (t1 ! j)"
    proof cases
      case 1
      with k oldsorted[OF 1 k] show ?thesis
        by (simp add: old)
    next
      case 2
      with k have "k < i" by simp
      from below[OF this] fr have "frequency (t ! k) < freq" by simp
      with 2 \<open>k < i\<close> show ?thesis by (simp add: old new)
    qed
  qed
  have c3: "freq + 1 = em_floor t1 (Suc i)" by (simp add: em_floor_def new)
  have c4: "freq = frequency (t1 ! i)" by (simp add: new)
  have c5: "\<forall>j<n. Suc i \<le> j \<longrightarrow> cost (t1 ! j) = 0"
    using oldcost by (simp add: later)
  have "map (\<lambda>j. (em_floor t1 j, cpu)) [0..<i] = map (\<lambda>j. (em_floor t j, cpu)) [0..<i]"
    by (rule map_cong) (simp_all add: fl)
  moreover have "l_freq l = em_floor t1 i"
    using oldfloor by (simp add: fl)
  ultimately have c6: "cb_calls w1 = calls0 @ map (\<lambda>j. (em_floor t1 j, cpu)) [0..<Suc i]"
    using oldcalls calls by simp
  have sel: "l_i l1 = Suc i" "l_table l1 = t1" "l_freq l1 = freq + 1" "l_prev_freq l1 = freq"
    by (simp_all add: l1 t1_def t_def i_def)
  have c0: "Suc i \<le> n" using i by simp
  have len1: "length t1 = n" using len by (simp add: t1_def)
  have c4': "freq = (if Suc i = 0 then 0 else frequency (t1 ! (Suc i - 1)))" by (simp add: new)
  show ?thesis
    unfolding em_cap_inv_def sel
    by (intro conjI) (fact c0 len1 c1 c2 c3 c4' c5 c6)+
qed

lemma em_cap_loop_inv:
  assumes "em_cap_loop f cpu n (em_locals_init env n) w = Inr (l', w')"
  shows "em_cap_inv cpu (cb_calls w) n l' w' \<and> l_i l' = n"
proof -
  have "em_cap_inv cpu (cb_calls w) n l' w' \<and> \<not> l_i l' < n"
    by (rule em_cap_loop_invariant[where P = "em_cap_inv cpu (cb_calls w) n", OF assms em_cap_inv_init])
       (blast intro: em_cap_inv_step)
  then have a: "em_cap_inv cpu (cb_calls w) n l' w'" and b: "\<not> l_i l' < n" by blast+
  from a have "l_i l' \<le> n" unfolding em_cap_inv_def by blast
  with a b show ?thesis by simp
qed

section \<open>The cost loop and the conversions of \<open>nr_states\<close>\<close>

lemma em_cost_loop_length: "length (em_cost_loop fmax n i t) = length t"
proof (induction fmax n i t rule: em_cost_loop.induct)
  case (1 fmax n i t)
  show ?case
  proof (cases "i < n")
    case True
    then show ?thesis using "1.IH" by (subst em_cost_loop.simps) simp
  next
    case False
    then show ?thesis by (subst em_cost_loop.simps) simp
  qed
qed

lemma em_cost_loop_nth:
  "n \<le> length t \<Longrightarrow> j < length t \<Longrightarrow>
   em_cost_loop fmax n i t ! j =
     (if i \<le> j \<and> j < n
      then (t ! j)\<lparr>cost := div64_u64 (fmax * power_cs (t ! j)) (frequency (t ! j))\<rparr>
      else t ! j)"
proof (induction fmax n i t rule: em_cost_loop.induct)
  case (1 fmax n i t)
  show ?case
  proof (cases "i < n")
    case False
    then show ?thesis by (subst em_cost_loop.simps) auto
  next
    case True
    let ?t = "t[i := (t ! i)\<lparr>cost := div64_u64 (fmax * power_cs (t ! i)) (frequency (t ! i))\<rparr>]"
    have "em_cost_loop fmax n i t ! j = em_cost_loop fmax n (Suc i) ?t ! j"
      using True by (subst em_cost_loop.simps) simp
    also have "\<dots> = (if Suc i \<le> j \<and> j < n
        then (?t ! j)\<lparr>cost := div64_u64 (fmax * power_cs (?t ! j)) (frequency (?t ! j))\<rparr>
        else ?t ! j)"
      using "1.IH"[OF True] "1.prems" by simp
    also have "\<dots> = (if i \<le> j \<and> j < n
      then (t ! j)\<lparr>cost := div64_u64 (fmax * power_cs (t ! j)) (frequency (t ! j))\<rparr>
      else t ! j)"
      using True "1.prems" by (cases "j = i") auto
    finally show ?thesis .
  qed
qed

lemma kcalloc_negative:
  fixes nr :: u32
  assumes neg: "sint nr < 0"
  shows "(2 ^ 64 - 1) div 24 < unat (scast nr :: u64)"
proof -
  have lb: "- (2 ^ 31) \<le> sint nr" using sint_ge[of nr] by simp
  have "uint (scast nr :: u64) = sint nr mod 2 ^ LENGTH(64)"
    unfolding scast_eq by (rule uint_word_of_int)
  then have "uint (scast nr :: u64) = sint nr mod 2 ^ 64" by simp
  also have "\<dots> = (sint nr + 2 ^ 64) mod 2 ^ 64" by simp
  also have "\<dots> = sint nr + 2 ^ 64"
    using neg lb by (intro mod_pos_pos_trivial) simp_all
  finally have big: "18446744071562067968 \<le> uint (scast nr :: u64)" using lb by simp
  have c: "((2 ^ 64 - 1) div 24 :: nat) = 768614336404564650" by simp
  have "int (unat (scast nr :: u64)) = uint (scast nr :: u64)" by simp
  with big have "int 768614336404564650 < int (unat (scast nr :: u64))" by simp
  then have "768614336404564650 < unat (scast nr :: u64)" by (simp only: of_nat_less_iff)
  with c show ?thesis by simp
qed

lemma nat_sint_eq_unat:
  fixes nr :: u32
  assumes "0 \<le> sint nr"
  shows "nat (sint nr) = unat nr"
proof -
  have "sint nr < 2 ^ 31" using sint_lt[of nr] by simp
  then have "sint nr < 2 ^ 32" by simp
  with assms have "take_bit 32 (sint nr) = sint nr" by (simp add: take_bit_int_eq_self)
  then have "uint nr = sint nr" using uint_sint[of nr] by simp
  then show ?thesis by (simp add: unat_eq_nat_uint)
qed

section \<open>What em_create_pd returns\<close>

lemma em_cap_loop_frame:
  assumes "em_cap_loop f cpu n l w = Inr (l', w')"
  shows "em_data w' = em_data w \<and> pd_heap w' = pd_heap w \<and> em_kobject w' = em_kobject w"
proof -
  let ?P = "\<lambda>(l1 :: em_locals) w1. em_data w1 = em_data w \<and> pd_heap w1 = pd_heap w \<and> em_kobject w1 = em_kobject w"
  have "?P l' w' \<and> \<not> l_i l' < n"
  proof (rule em_cap_loop_invariant[where P = ?P, OF assms])
    show "?P l w" by simp
    show "\<forall>l w l1 w1. ?P l w \<longrightarrow> l_i l < n \<longrightarrow> em_cap_step f cpu l w = Inr (l1, w1) \<longrightarrow> ?P l1 w1"
      using em_cap_step_Inr by metis
  qed
  then show ?thesis by blast
qed

lemma em_create_pd_None:
  assumes "em_create_pd env span nr cb w = (None, w')"
  shows "em_data w' = em_data w \<and> pd_heap w' = pd_heap w \<and> em_kobject w' = em_kobject w"
  using assms
  by (auto simp: em_create_pd_def Let_def split: option.splits if_splits sum.splits prod.splits
           dest: em_cap_loop_Inl)

lemma em_create_pd_Some:
  assumes "em_create_pd env span nr cb w = (Some p, w')"
  shows "\<exists>ap l w1. active_power cb = Some ap \<and> 0 \<le> sint nr \<and>
           em_cap_loop ap (cpumask_first span) (unat nr) (em_locals_init env (unat nr)) w = Inr (l, w1) \<and>
           p = length (pd_heap w) \<and>
           pd_heap w' = pd_heap w @
             [\<lparr>table = em_cost_loop (if unat nr = 0 then 0 else frequency (l_table l ! (unat nr - 1)))
                         (unat nr) 0 (l_table l),
               nr_cap_states = nr, cpus = span\<rparr>] \<and>
           em_data w' = em_data w \<and> em_kobject w' = em_kobject w \<and> cb_calls w' = cb_calls w1"
proof -
  from assms obtain ap where ap: "active_power cb = Some ap"
    by (auto simp: em_create_pd_def Let_def split: option.splits)
  from assms ap have kc: "kcalloc env (scast nr) sizeof_em_cap_state"
    by (auto simp: em_create_pd_def Let_def split: if_splits)
  have nn: "0 \<le> sint nr"
  proof (rule ccontr)
    assume "\<not> 0 \<le> sint nr"
    then have "sint nr < 0" by simp
    from kcalloc_negative[OF this] kc show False
      by (simp add: kcalloc_def sizeof_em_cap_state_def)
  qed
  have n: "nat (sint nr) = unat nr" by (rule nat_sint_eq_unat[OF nn])
  from assms ap kc obtain l w1 where
    loop: "em_cap_loop ap (cpumask_first span) (unat nr) (em_locals_init env (unat nr)) w = Inr (l, w1)"
    by (auto simp: em_create_pd_def Let_def n split: if_splits sum.splits)
  from em_cap_loop_frame[OF loop] have fr: "em_data w1 = em_data w" "pd_heap w1 = pd_heap w"
    "em_kobject w1 = em_kobject w" by blast+
  from assms ap kc loop fr nn show ?thesis
    by (auto simp: em_create_pd_def Let_def n split: if_splits)
qed

lemma em_create_pd_table:
  assumes "em_create_pd env span nr cb w = (Some p, w')"
  shows "\<exists>pd. p = length (pd_heap w) \<and> pd_heap w' = pd_heap w @ [pd] \<and>
           nr_cap_states pd = nr \<and> cpus pd = span \<and> length (table pd) = unat nr \<and>
           (\<forall>j<unat nr. power_cs (table pd ! j) \<noteq> 0 \<and> power_cs (table pd ! j) \<le> EM_CPU_MAX_POWER \<and>
               frequency (table pd ! j) \<noteq> 0) \<and>
           (\<forall>j<unat nr. \<forall>k<j. frequency (table pd ! k) < frequency (table pd ! j)) \<and>
           (\<forall>j<unat nr. cost (table pd ! j) =
               (frequency (table pd ! (unat nr - 1)) * power_cs (table pd ! j)) div frequency (table pd ! j)) \<and>
           cb_calls w' = cb_calls w @ map (\<lambda>j. (em_floor (table pd) j, cpumask_first span)) [0..<unat nr] \<and>
           em_data w' = em_data w \<and> em_kobject w' = em_kobject w"
proof -
  define n where "n = unat nr"
  from em_create_pd_Some[OF assms, folded n_def] obtain ap l w1 where
    loop: "em_cap_loop ap (cpumask_first span) n (em_locals_init env n) w = Inr (l, w1)"
    and p: "p = length (pd_heap w)"
    and heap: "pd_heap w' = pd_heap w @
         [\<lparr>table = em_cost_loop (if n = 0 then 0 else frequency (l_table l ! (n - 1))) n 0 (l_table l),
           nr_cap_states = nr, cpus = span\<rparr>]"
    and fr: "em_data w' = em_data w" "em_kobject w' = em_kobject w" "cb_calls w' = cb_calls w1"
    by blast
  define t0 where "t0 = l_table l"
  define fmax where "fmax = (if n = 0 then 0 else frequency (t0 ! (n - 1)))"
  define t where "t = em_cost_loop fmax n 0 t0"
  from em_cap_loop_inv[OF loop] have inv: "em_cap_inv (cpumask_first span) (cb_calls w) n l w1"
    and li: "l_i l = n" by blast+
  note I = inv[unfolded em_cap_inv_def li, folded t0_def]
  have len0: "length t0 = n" using I by blast
  have pw: "\<And>j. j < n \<Longrightarrow> power_cs (t0 ! j) \<noteq> 0 \<and> power_cs (t0 ! j) \<le> EM_CPU_MAX_POWER \<and>
      frequency (t0 ! j) \<noteq> 0"
    using I by blast
  have srt: "\<And>j k. j < n \<Longrightarrow> k < j \<Longrightarrow> frequency (t0 ! k) < frequency (t0 ! j)"
    using I by blast
  have calls: "cb_calls w1 = cb_calls w @ map (\<lambda>j. (em_floor t0 j, cpumask_first span)) [0..<n]"
    using I by blast
  have len: "length t = n" by (simp add: t_def em_cost_loop_length len0)
  have nth: "\<And>j. j < n \<Longrightarrow> t ! j = (t0 ! j)\<lparr>cost := (fmax * power_cs (t0 ! j)) div frequency (t0 ! j)\<rparr>"
    by (simp add: t_def em_cost_loop_nth len0 div64_u64_def)
  have fmax: "\<And>j. j < n \<Longrightarrow> fmax = frequency (t ! (n - 1))"
    by (simp add: fmax_def nth)
  have fl: "\<And>j. j \<le> n \<Longrightarrow> em_floor t j = em_floor t0 j"
    by (simp add: em_floor_def nth)
  have m: "map (\<lambda>j. (em_floor t j, cpumask_first span)) [0..<n] =
           map (\<lambda>j. (em_floor t0 j, cpumask_first span)) [0..<n]"
    by (rule map_cong) (simp_all add: fl)
  have a: "\<forall>j<n. power_cs (t ! j) \<noteq> 0 \<and> power_cs (t ! j) \<le> EM_CPU_MAX_POWER \<and>
      frequency (t ! j) \<noteq> 0"
    using pw by (simp add: nth)
  have b: "\<forall>j<n. \<forall>k<j. frequency (t ! k) < frequency (t ! j)"
    using srt by (simp add: nth)
  have c: "\<forall>j<n. cost (t ! j) = (frequency (t ! (n - 1)) * power_cs (t ! j)) div frequency (t ! j)"
  proof (intro allI impI)
    fix j assume j: "j < n"
    from fmax[OF j] nth[OF j] show "cost (t ! j) = (frequency (t ! (n - 1)) * power_cs (t ! j)) div frequency (t ! j)"
      by simp
  qed
  have d: "cb_calls w' = cb_calls w @ map (\<lambda>j. (em_floor t j, cpumask_first span)) [0..<n]"
    using calls fr(3) m by simp
  let ?pd = "\<lparr>table = t, nr_cap_states = nr, cpus = span\<rparr>"
  have h: "pd_heap w' = pd_heap w @ [?pd]"
    using heap by (simp add: t_def fmax_def t0_def)
  have "p = length (pd_heap w) \<and> pd_heap w' = pd_heap w @ [?pd] \<and>
           nr_cap_states ?pd = nr \<and> cpus ?pd = span \<and> length (table ?pd) = n \<and>
           (\<forall>j<n. power_cs (table ?pd ! j) \<noteq> 0 \<and> power_cs (table ?pd ! j) \<le> EM_CPU_MAX_POWER \<and>
               frequency (table ?pd ! j) \<noteq> 0) \<and>
           (\<forall>j<n. \<forall>k<j. frequency (table ?pd ! k) < frequency (table ?pd ! j)) \<and>
           (\<forall>j<n. cost (table ?pd ! j) =
               (frequency (table ?pd ! (n - 1)) * power_cs (table ?pd ! j)) div frequency (table ?pd ! j)) \<and>
           cb_calls w' = cb_calls w @ map (\<lambda>j. (em_floor (table ?pd) j, cpumask_first span)) [0..<n] \<and>
           em_data w' = em_data w \<and> em_kobject w' = em_kobject w"
    using p h len a b c d fr(1,2) by simp
  then show ?thesis unfolding n_def by blast
qed

section \<open>What em_register_perf_domain returns\<close>

lemma em_check_span_frame:
  "em_check_span env span w pc cs = (r, w1) \<Longrightarrow>
     em_data w1 = em_data w \<and> pd_heap w1 = pd_heap w \<and> em_kobject w1 = em_kobject w \<and>
     cb_calls w1 = cb_calls w \<and> driver w1 = driver w"
  by (induction cs arbitrary: pc) (auto simp: Let_def split: if_splits)

lemma em_check_span_0:
  "em_check_span env span w pc cs = (0, w1) \<Longrightarrow>
     w1 = w \<and> (\<forall>cpu\<in>set cs. em_data w cpu = None)"
  by (induction cs arbitrary: pc) (auto simp: Let_def EEXIST_def EINVAL_def split: if_splits)

lemma em_check_span_EEXIST:
  "em_check_span env span w pc cs = (r, w1) \<Longrightarrow> \<exists>cpu\<in>set cs. em_data w cpu \<noteq> None \<Longrightarrow>
     r = - EEXIST \<or> r = - EINVAL"
  by (induction cs arbitrary: pc) (auto simp: Let_def split: if_splits)

lemma em_publish_frame:
  "pd_heap (em_publish p w cs) = pd_heap w \<and> em_kobject (em_publish p w cs) = em_kobject w \<and>
   cb_calls (em_publish p w cs) = cb_calls w \<and> klog (em_publish p w cs) = klog w \<and>
   driver (em_publish p w cs) = driver w"
  by (induction cs arbitrary: w) auto

lemma em_publish_em_data:
  "em_data (em_publish p w cs) cpu = (if cpu \<in> set cs then Some p else em_data w cpu)"
  by (induction cs arbitrary: w) auto

lemma em_register_failure:
  assumes "em_register_perf_domain env span nr cb w = (r, w')" and "r \<noteq> 0"
  shows "em_data w' = em_data w \<and> pd_heap w' = pd_heap w"
proof (cases "\<exists>msk c. span = Some msk \<and> cb = Some c \<and> nr \<noteq> 0 \<and> (em_kobject w \<or> kobject_create_ok env)")
  case False
  with assms show ?thesis
    by (auto simp: em_register_perf_domain_def split: option.splits if_splits)
next
  case True
  then obtain msk c where s: "span = Some msk" "cb = Some c" "nr \<noteq> 0"
    "em_kobject w \<or> kobject_create_ok env" by blast
  let ?w0 = "w\<lparr>em_kobject := True\<rparr>"
  obtain r1 w1 where chk: "em_check_span env msk ?w0 0 (for_each_cpu msk) = (r1, w1)"
    by (cases "em_check_span env msk ?w0 0 (for_each_cpu msk)")
  from em_check_span_frame[OF chk] have f1: "em_data w1 = em_data w" "pd_heap w1 = pd_heap w" by simp_all
  show ?thesis
  proof (cases "r1 = 0")
    case False
    with assms s chk have "w' = w1" by (auto simp: em_register_perf_domain_def)
    with f1 show ?thesis by simp
  next
    case True
    obtain q w2 where cr: "em_create_pd env msk nr c w1 = (q, w2)"
      by (cases "em_create_pd env msk nr c w1")
    with assms s chk True have q: "q = None" and "w' = w2"
      by (auto simp: em_register_perf_domain_def split: option.splits)
    with em_create_pd_None[OF cr[unfolded q]] f1 show ?thesis by simp
  qed
qed

lemma em_register_success:
  assumes "em_register_perf_domain env span nr cb w = (0, w')"
  shows "\<exists>msk c p w2. span = Some msk \<and> cb = Some c \<and> nr \<noteq> 0 \<and>
           (\<forall>cpu\<in>set (for_each_cpu msk). em_data w cpu = None) \<and>
           em_create_pd env msk nr c (w\<lparr>em_kobject := True\<rparr>) = (Some p, w2) \<and>
           w' = em_publish p w2 (for_each_cpu msk)"
proof -
  from assms obtain msk c where s: "span = Some msk" "cb = Some c"
    by (auto simp: em_register_perf_domain_def EINVAL_def split: option.splits)
  from assms s have nz: "nr \<noteq> 0" and ko: "em_kobject w \<or> kobject_create_ok env"
    by (auto simp: em_register_perf_domain_def EINVAL_def ENODEV_def split: if_splits)
  let ?w0 = "w\<lparr>em_kobject := True\<rparr>"
  obtain r1 w1 where chk: "em_check_span env msk ?w0 0 (for_each_cpu msk) = (r1, w1)"
    by (cases "em_check_span env msk ?w0 0 (for_each_cpu msk)")
  from assms s nz ko chk have r1: "r1 = 0"
    by (auto simp: em_register_perf_domain_def split: if_splits)
  from em_check_span_0[OF chk[unfolded r1]] have w1: "w1 = ?w0"
    and free: "\<forall>cpu\<in>set (for_each_cpu msk). em_data w cpu = None" by simp_all
  obtain q w2 where cr: "em_create_pd env msk nr c ?w0 = (q, w2)"
    by (cases "em_create_pd env msk nr c ?w0")
  from assms s nz ko chk r1 w1 cr obtain p where "q = Some p" and "w' = em_publish p w2 (for_each_cpu msk)"
    by (auto simp: em_register_perf_domain_def EINVAL_def split: option.splits)
  with s nz free cr show ?thesis by blast
qed

section \<open>Running the code on the example\<close>

lemma replicate_numeral: "replicate (numeral k) x = x # replicate (pred_numeral k) x"
  by (simp add: numeral_eq_Suc)

lemmas em_eval_core =
  em_register_perf_domain_def em_create_pd_def em_cap_step_def em_locals_init_def
  em_cap_loop.simps em_cost_loop.simps
  env_ok_def world_boot_def opp_active_power_def opp_cb_def EM_CPU_MAX_POWER_def ULONG_MAX_def
  seq_active_power_def seq_cb_def world_seq_def
  replicate_numeral Let_def kcalloc_def
  sizeof_em_cap_state_def div64_u64_def EINVAL_def EEXIST_def ENODEV_def em_cpu_get_def

lemmas em_eval = em_eval_core for_each_cpu_def cpumask_first_def upt_conv_Cons

lemma register_two_cpus:
  "em_register_perf_domain env_ok (Some [True, True, False, False]) 4
     (Some (opp_cb [(10, 100), (15, 200), (25, 400), (60, 800)])) world_boot = (0, world_two_cpus)"
  by (simp add: em_eval world_two_cpus_def)

section \<open>The claims\<close>

text \<open>
  C1. For every successful registration, the published table has exactly \<open>nr_states\<close>
  entries and its frequencies are strictly increasing: the frequency of entry \<open>i\<close> is
  below that of entry \<open>i + 1\<close> for every valid index, hence every frequency is strictly
  positive. The published table is the table of the new domain, which is the one every CPU
  of the span points to.
\<close>

theorem table_length_and_frequencies:
  assumes "em_register_perf_domain env span nr_states cb w = (0, w')"
  shows "\<exists>msk pd. span = Some msk \<and> pd_heap w' = pd_heap w @ [pd] \<and>
           (\<forall>cpu\<in>set (for_each_cpu msk). em_cpu_get w' cpu = Some (length (pd_heap w))) \<and>
           length (table pd) = unat nr_states \<and> nr_cap_states pd = nr_states \<and>
           (\<forall>i. Suc i < length (table pd) \<longrightarrow>
                frequency (table pd ! i) < frequency (table pd ! Suc i)) \<and>
           sorted_wrt (<) (map frequency (table pd)) \<and>
           (\<forall>e\<in>set (table pd). 0 < frequency e)"
proof -
  from em_register_success[OF assms] obtain msk c p w2 where
    s: "span = Some msk"
    and cr: "em_create_pd env msk nr_states c (w\<lparr>em_kobject := True\<rparr>) = (Some p, w2)"
    and w': "w' = em_publish p w2 (for_each_cpu msk)" by blast
  from em_create_pd_table[OF cr] obtain pd where
    p: "p = length (pd_heap w)" and heap: "pd_heap w2 = pd_heap w @ [pd]"
    and nr: "nr_cap_states pd = nr_states" and len: "length (table pd) = unat nr_states"
    and nz: "\<forall>j<unat nr_states. frequency (table pd ! j) \<noteq> 0"
    and srt: "\<forall>j<unat nr_states. \<forall>k<j. frequency (table pd ! k) < frequency (table pd ! j)"
    by auto
  have a: "pd_heap w' = pd_heap w @ [pd]" using heap w' by (simp add: em_publish_frame)
  have b: "\<forall>cpu\<in>set (for_each_cpu msk). em_cpu_get w' cpu = Some (length (pd_heap w))"
    by (simp add: em_cpu_get_def w' em_publish_em_data p)
  have c: "\<forall>i. Suc i < length (table pd) \<longrightarrow> frequency (table pd ! i) < frequency (table pd ! Suc i)"
    using srt len by auto
  have d: "sorted_wrt (<) (map frequency (table pd))"
    using srt len by (simp add: sorted_wrt_iff_nth_less)
  have e: "\<forall>e\<in>set (table pd). 0 < frequency e"
  proof
    fix e assume "e \<in> set (table pd)"
    then obtain j where "j < length (table pd)" "e = table pd ! j" by (auto simp: in_set_conv_nth)
    with nz len show "0 < frequency e" by (simp add: word_gt_0)
  qed
  from s a b len nr c d e show ?thesis by blast
qed

theorem table_length_and_frequencies_witness:
  "em_register_perf_domain env_ok (Some [True, True, False, False]) 4
     (Some (opp_cb [(10, 100), (15, 200), (25, 400), (60, 800)])) world_boot = (0, world_two_cpus) \<and>
   (\<exists>msk pd. Some [True, True, False, False] = Some msk \<and>
      pd_heap world_two_cpus = pd_heap world_boot @ [pd] \<and>
      (\<forall>cpu\<in>set (for_each_cpu msk). em_cpu_get world_two_cpus cpu = Some (length (pd_heap world_boot))) \<and>
      length (table pd) = unat (4 :: u32) \<and> nr_cap_states pd = 4 \<and>
      (\<forall>i. Suc i < length (table pd) \<longrightarrow>
           frequency (table pd ! i) < frequency (table pd ! Suc i)) \<and>
      sorted_wrt (<) (map frequency (table pd)) \<and>
      (\<forall>e\<in>set (table pd). 0 < frequency e))"
  using table_length_and_frequencies[OF register_two_cpus] register_two_cpus by simp

text \<open>
  C7. After a successful registration of a span, \<^verbatim>\<open>em_cpu_get\<close> returns the same pointer
  for every CPU of the span: the address of the one domain object the call allocated,
  whose \<open>cpus\<close> field is the span. The slots of the other CPUs are left as they were.
\<close>

theorem one_shared_domain:
  assumes "em_register_perf_domain env span nr_states cb w = (0, w')"
  shows "\<exists>msk pd. span = Some msk \<and> pd_heap w' = pd_heap w @ [pd] \<and> cpus pd = msk \<and>
           (\<forall>cpu\<in>set (for_each_cpu msk).
              em_cpu_get w cpu = None \<and> em_cpu_get w' cpu = Some (length (pd_heap w))) \<and>
           (\<forall>cpu. cpu \<notin> set (for_each_cpu msk) \<longrightarrow> em_cpu_get w' cpu = em_cpu_get w cpu)"
proof -
  from em_register_success[OF assms] obtain msk c p w2 where
    s: "span = Some msk"
    and free: "\<forall>cpu\<in>set (for_each_cpu msk). em_data w cpu = None"
    and cr: "em_create_pd env msk nr_states c (w\<lparr>em_kobject := True\<rparr>) = (Some p, w2)"
    and w': "w' = em_publish p w2 (for_each_cpu msk)" by blast
  from em_create_pd_table[OF cr] obtain pd where
    p: "p = length (pd_heap w)" and heap: "pd_heap w2 = pd_heap w @ [pd]"
    and cp: "cpus pd = msk" and d: "em_data w2 = em_data w"
    by auto
  have a: "pd_heap w' = pd_heap w @ [pd]" using heap w' by (simp add: em_publish_frame)
  have b: "\<forall>cpu\<in>set (for_each_cpu msk).
              em_cpu_get w cpu = None \<and> em_cpu_get w' cpu = Some (length (pd_heap w))"
    using free by (simp add: em_cpu_get_def w' em_publish_em_data p)
  have c: "\<forall>cpu. cpu \<notin> set (for_each_cpu msk) \<longrightarrow> em_cpu_get w' cpu = em_cpu_get w cpu"
    by (simp add: em_cpu_get_def w' em_publish_em_data d)
  from s a cp b c show ?thesis by blast
qed

theorem one_shared_domain_witness:
  "em_register_perf_domain env_ok (Some [True, True, False, False]) 4
     (Some (opp_cb [(10, 100), (15, 200), (25, 400), (60, 800)])) world_boot = (0, world_two_cpus) \<and>
   (\<exists>msk pd. Some [True, True, False, False] = Some msk \<and>
           pd_heap world_two_cpus = pd_heap world_boot @ [pd] \<and> cpus pd = msk \<and>
           (\<forall>cpu\<in>set (for_each_cpu msk).
              em_cpu_get world_boot cpu = None \<and>
              em_cpu_get world_two_cpus cpu = Some (length (pd_heap world_boot))) \<and>
           (\<forall>cpu. cpu \<notin> set (for_each_cpu msk) \<longrightarrow>
              em_cpu_get world_two_cpus cpu = em_cpu_get world_boot cpu))"
  using one_shared_domain[OF register_two_cpus] register_two_cpus by simp

lemma em_cap_loop_index:
  assumes "em_cap_loop f cpu i l0 w0 = Inr (l, w1)" and "l_i l0 \<le> i"
  shows "l_i l = i"
proof -
  have "l_i l \<le> i \<and> \<not> l_i l < i"
  proof (rule em_cap_loop_invariant[where P = "\<lambda>l w. l_i l \<le> i", OF assms(1)])
    show "l_i l0 \<le> i" by (rule assms(2))
    show "\<forall>l w l1 w1. l_i l \<le> i \<longrightarrow> l_i l < i \<longrightarrow> em_cap_step f cpu l w = Inr (l1, w1) \<longrightarrow> l_i l1 \<le> i"
      using em_cap_step_Inr by fastforce
  qed
  then show ?thesis by simp
qed

lemma em_cap_loop_prefix:
  "em_cap_loop f cpu i l0 w0 = Inr (l, w1) \<Longrightarrow> i \<le> n \<Longrightarrow>
     em_cap_loop f cpu n l0 w0 = em_cap_loop f cpu n l w1"
proof (induction f cpu i l0 w0 rule: em_cap_loop.induct)
  case (1 f cpu i l0 w0)
  show ?case
  proof (cases "l_i l0 < i")
    case False
    with "1.prems" show ?thesis by (simp add: em_cap_loop.simps[of f cpu i l0 w0])
  next
    case True
    show ?thesis
    proof (cases "em_cap_step f cpu l0 w0")
      case (Inl w2)
      with True "1.prems" show ?thesis by (simp add: em_cap_loop.simps[of f cpu i l0 w0])
    next
      case (Inr p)
      obtain l2 w2 where p: "p = (l2, w2)" by (cases p)
      from Inr p True "1.prems" have r: "em_cap_loop f cpu i l2 w2 = Inr (l, w1)"
        by (simp add: em_cap_loop.simps[of f cpu i l0 w0])
      from "1.IH"[OF True Inr[unfolded p] refl r "1.prems"(2)]
      have "em_cap_loop f cpu n l2 w2 = em_cap_loop f cpu n l w1" .
      moreover from True "1.prems"(2) have "l_i l0 < n" by simp
      ultimately show ?thesis using Inr p by (simp add: em_cap_loop.simps[of f cpu n l0 w0])
    qed
  qed
qed

text \<open>
  C3. If the construction of the table fails at any index, the registration is aborted
  with an error and nothing is committed. Here the first \<open>i\<close> iterations have passed and
  the sample of iteration \<open>i\<close> is bad in one of the three ways: the callback returned an
  error, or its frequency is not above the previous one, or its power is 0 or above
  \<^verbatim>\<open>EM_CPU_MAX_POWER\<close>. Then \<^verbatim>\<open>em_register_perf_domain\<close> returns \<^verbatim>\<open>-EINVAL\<close>, having
  logged the error of the first check that failed; the per-CPU pointers and the domains
  are those of before the call, so \<^verbatim>\<open>em_cpu_get\<close> still returns NULL for every CPU of
  the span, and no table of the failed attempt can be reached from the state.
\<close>

theorem failed_build_commits_nothing:
  assumes span: "span = Some msk" and cb: "cb = Some c" and ap: "active_power c = Some f"
    and nr: "nr_states \<noteq> 0"
    and ko: "em_kobject w \<or> kobject_create_ok env"
    and chk: "em_check_span env msk (w\<lparr>em_kobject := True\<rparr>) 0 (for_each_cpu msk) = (0, w0)"
    and kz: "kzalloc_ok env" and kc: "kcalloc env (scast nr_states) sizeof_em_cap_state"
    and pre: "em_cap_loop f (cpumask_first msk) i (em_locals_init env (unat nr_states))
                (w\<lparr>em_kobject := True\<rparr>) = Inr (l, w1)"
    and i: "i < unat nr_states"
    and sample: "f (driver w1) (l_power l) (l_freq l) (cpumask_first msk) = (d, ret, pwr, freq)"
    and bad: "ret \<noteq> 0 \<or> freq \<le> l_prev_freq l \<or> pwr = 0 \<or> EM_CPU_MAX_POWER < pwr"
    and w_err: "w_err = w1\<lparr>driver := d,
                  cb_calls := cb_calls w1 @ [(l_freq l, cpumask_first msk)],
                  klog := klog w1 @
                    [if ret \<noteq> 0 then Err_invalid_cap_state (cpumask_first msk) ret
                     else if freq \<le> l_prev_freq l then Err_non_increasing_freq (cpumask_first msk) freq
                     else Err_invalid_power (cpumask_first msk) pwr]\<rparr>"
  shows "em_register_perf_domain env span nr_states cb w = (- EINVAL, w_err) \<and>
         em_data w_err = em_data w \<and> pd_heap w_err = pd_heap w \<and>
         (\<forall>cpu\<in>set (for_each_cpu msk). em_cpu_get w_err cpu = None) \<and>
         (\<forall>cpu. em_cpu_get w_err cpu = em_cpu_get w cpu)"
proof -
  let ?w0 = "w\<lparr>em_kobject := True\<rparr>"
  let ?cpu = "cpumask_first msk"
  let ?n = "unat nr_states"
  from em_check_span_0[OF chk] have w0: "w0 = ?w0"
    and free: "\<forall>cpu\<in>set (for_each_cpu msk). em_data w cpu = None" by simp_all
  have nn: "0 \<le> sint nr_states"
  proof (rule ccontr)
    assume "\<not> 0 \<le> sint nr_states"
    then have "sint nr_states < 0" by simp
    from kcalloc_negative[OF this] kc show False
      by (simp add: kcalloc_def sizeof_em_cap_state_def)
  qed
  have n: "nat (sint nr_states) = ?n" by (rule nat_sint_eq_unat[OF nn])
  have li: "l_i l = i"
    by (rule em_cap_loop_index[OF pre]) (simp add: em_locals_init_def)
  have step: "em_cap_step f ?cpu l w1 = Inl w_err"
    using sample bad by (auto simp: em_cap_step_def Let_def w_err)
  have "em_cap_loop f ?cpu ?n (em_locals_init env ?n) ?w0 = em_cap_loop f ?cpu ?n l w1"
    using i by (intro em_cap_loop_prefix[OF pre]) simp
  also have "\<dots> = Inl w_err"
    using li i step by (simp add: em_cap_loop.simps[of f ?cpu ?n l w1])
  finally have fail: "em_cap_loop f ?cpu ?n (em_locals_init env ?n) ?w0 = Inl w_err" .
  have cr: "em_create_pd env msk nr_states c ?w0 = (None, w_err)"
    using ap kz kc fail by (simp add: em_create_pd_def Let_def n)
  have r: "em_register_perf_domain env span nr_states cb w = (- EINVAL, w_err)"
    using span cb nr ko chk w0 cr by (auto simp: em_register_perf_domain_def)
  from em_cap_loop_Inl[OF fail] have fr: "em_data w_err = em_data w" "pd_heap w_err = pd_heap w"
    by simp_all
  have g: "\<forall>cpu\<in>set (for_each_cpu msk). em_cpu_get w_err cpu = None"
    using free fr by (simp add: em_cpu_get_def)
  have h: "\<forall>cpu. em_cpu_get w_err cpu = em_cpu_get w cpu" using fr by (simp add: em_cpu_get_def)
  from r fr g h show ?thesis by blast
qed

lemma seq_first_iteration:
  "em_cap_loop seq_active_power (cpumask_first [True]) 1 (em_locals_init env_ok (unat (2 :: u32)))
     ((world_seq [(0, 10, 100), x])\<lparr>em_kobject := True\<rparr>) =
   Inr (\<lparr>l_i = 1, l_freq = 101, l_power = 10, l_prev_freq = 100, l_prev_opp_eff = 10,
         l_table = [\<lparr>frequency = 100, power_cs = 10, cost = 0\<rparr>,
                    \<lparr>frequency = 0, power_cs = 0, cost = 0\<rparr>]\<rparr>,
        (world_seq [x])\<lparr>em_kobject := True, cb_calls := [(0, 0)]\<rparr>)"
  by (simp add: em_eval)

theorem failed_build_commits_nothing_witness:
  "em_register_perf_domain env_ok (Some [True]) 2 (Some seq_cb)
     (world_seq [(0, 10, 100), (- 5, 0, 0)]) =
     (- EINVAL, world_seq_failed\<lparr>klog := [Err_invalid_cap_state 0 (- 5)]\<rparr>) \<and>
   em_register_perf_domain env_ok (Some [True]) 2 (Some seq_cb)
     (world_seq [(0, 10, 100), (0, 15, 90)]) = (- EINVAL, world_seq_failed) \<and>
   em_register_perf_domain env_ok (Some [True]) 2 (Some seq_cb)
     (world_seq [(0, 10, 100), (0, 0, 200)]) =
     (- EINVAL, world_seq_failed\<lparr>klog := [Err_invalid_power 0 0]\<rparr>) \<and>
   em_data world_seq_failed = em_data (world_seq [(0, 10, 100), (0, 15, 90)]) \<and>
   pd_heap world_seq_failed = pd_heap (world_seq [(0, 10, 100), (0, 15, 90)]) \<and>
   em_cpu_get world_seq_failed 0 = None"
proof -
  let ?l = "\<lparr>l_i = 1, l_freq = 101, l_power = 10, l_prev_freq = 100, l_prev_opp_eff = 10,
         l_table = [\<lparr>frequency = 100, power_cs = 10, cost = 0\<rparr>,
                    \<lparr>frequency = 0, power_cs = 0, cost = 0\<rparr>]\<rparr>"
  have h1: "active_power seq_cb = Some seq_active_power" by (simp add: seq_cb_def)
  have h2: "(2 :: u32) \<noteq> 0" by simp
  have h3: "\<And>a. em_kobject (world_seq a) \<or> kobject_create_ok env_ok" by (simp add: env_ok_def)
  have h4: "\<And>a. em_check_span env_ok [True] ((world_seq a)\<lparr>em_kobject := True\<rparr>) 0 (for_each_cpu [True]) =
            (0, (world_seq a)\<lparr>em_kobject := True\<rparr>)"
    by (simp add: em_eval)
  have h5: "kzalloc_ok env_ok" by (simp add: env_ok_def)
  have h6: "kcalloc env_ok (scast (2 :: u32)) sizeof_em_cap_state" by (simp add: em_eval)
  have h7: "(1 :: nat) < unat (2 :: u32)" by simp
  have s: "\<And>r p q. seq_active_power (driver ((world_seq [(r, p, q)])\<lparr>em_kobject := True, cb_calls := [(0, 0)]\<rparr>))
              (l_power ?l) (l_freq ?l) (cpumask_first [True]) = ([], r, p, q)"
    by (simp add: seq_active_power_def world_seq_def)
  have c0: "cpumask_first [True] = 0" by (simp add: em_eval)
  have gen: "em_register_perf_domain env_ok (Some [True]) 2 (Some seq_cb)
       (world_seq [(0, 10, 100), (r, p, q)]) =
     (- EINVAL,
      (world_seq [(r, p, q)])\<lparr>em_kobject := True, cb_calls := [(0, 0)]\<rparr>
        \<lparr>driver := [],
         cb_calls := cb_calls ((world_seq [(r, p, q)])\<lparr>em_kobject := True, cb_calls := [(0, 0)]\<rparr>) @
                     [(l_freq ?l, cpumask_first [True])],
         klog := klog ((world_seq [(r, p, q)])\<lparr>em_kobject := True, cb_calls := [(0, 0)]\<rparr>) @
                   [if r \<noteq> 0 then Err_invalid_cap_state (cpumask_first [True]) r
                    else if q \<le> l_prev_freq ?l then Err_non_increasing_freq (cpumask_first [True]) q
                    else Err_invalid_power (cpumask_first [True]) p]\<rparr>)"
    if bad: "r \<noteq> 0 \<or> q \<le> l_prev_freq ?l \<or> p = 0 \<or> EM_CPU_MAX_POWER < p" for r p q
    using failed_build_commits_nothing[OF refl refl h1 h2 h3 h4 h5 h6
        seq_first_iteration[of "(r, p, q)"] h7 s[of r p q] bad refl]
    by blast
  have a: "em_register_perf_domain env_ok (Some [True]) 2 (Some seq_cb)
     (world_seq [(0, 10, 100), (- 5, 0, 0)]) =
     (- EINVAL, world_seq_failed\<lparr>klog := [Err_invalid_cap_state 0 (- 5)]\<rparr>)"
    using gen[of "- 5" 0 0] by (simp add: c0 world_seq_def world_seq_failed_def)
  have b: "em_register_perf_domain env_ok (Some [True]) 2 (Some seq_cb)
     (world_seq [(0, 10, 100), (0, 15, 90)]) = (- EINVAL, world_seq_failed)"
    using gen[of 0 90 15] by (simp add: c0 world_seq_def world_seq_failed_def)
  have c: "em_register_perf_domain env_ok (Some [True]) 2 (Some seq_cb)
     (world_seq [(0, 10, 100), (0, 0, 200)]) =
     (- EINVAL, world_seq_failed\<lparr>klog := [Err_invalid_power 0 0]\<rparr>)"
    using gen[of 0 200 0] by (simp add: c0 world_seq_def world_seq_failed_def)
  from a b c show ?thesis by (simp add: world_seq_failed_def world_seq_def em_cpu_get_def)
qed

lemma em_cap_step_eff_indep:
  assumes "driver w2 = driver w"
  shows "(case em_cap_step f cpu l w of
            Inl _ \<Rightarrow> isl (em_cap_step f cpu (l\<lparr>l_prev_opp_eff := e\<rparr>) w2)
          | Inr (l1, w1) \<Rightarrow>
              (\<exists>w1'. em_cap_step f cpu (l\<lparr>l_prev_opp_eff := e\<rparr>) w2 = Inr (l1, w1') \<and>
                     driver w1' = driver w1))"
  using assms
  by (auto simp: em_cap_step_def Let_def split: prod.splits if_splits sum.splits)

lemma em_cap_loop_eff_indep:
  "driver w2 = driver w \<Longrightarrow>
     isl (em_cap_loop f cpu n (l\<lparr>l_prev_opp_eff := e\<rparr>) w2) = isl (em_cap_loop f cpu n l w)"
proof (induction f cpu n l w arbitrary: e w2 rule: em_cap_loop.induct)
  case (1 f cpu n l w)
  show ?case
  proof (cases "l_i l < n")
    case False
    then show ?thesis by (simp add: em_cap_loop.simps)
  next
    case True
    note st = em_cap_step_eff_indep[OF "1.prems", where f = f and cpu = cpu and l = l and e = e]
    show ?thesis
    proof (cases "em_cap_step f cpu l w")
      case (Inl w1)
      with st obtain w1' where "em_cap_step f cpu (l\<lparr>l_prev_opp_eff := e\<rparr>) w2 = Inl w1'"
        by (cases "em_cap_step f cpu (l\<lparr>l_prev_opp_eff := e\<rparr>) w2") auto
      with Inl True show ?thesis
        by (simp add: em_cap_loop.simps[of f cpu n l w]
                      em_cap_loop.simps[of f cpu n "l\<lparr>l_prev_opp_eff := e\<rparr>" w2])
    next
      case (Inr p)
      obtain l1 w1 where p: "p = (l1, w1)" by (cases p)
      with st Inr obtain w1' where
        s2: "em_cap_step f cpu (l\<lparr>l_prev_opp_eff := e\<rparr>) w2 = Inr (l1, w1')"
        and d: "driver w1' = driver w1" by auto
      from "1.IH"[OF True Inr[unfolded p] refl d, of "l_prev_opp_eff l1"]
      have "isl (em_cap_loop f cpu n l1 w1') = isl (em_cap_loop f cpu n l1 w1)" by simp
      with Inr p s2 True show ?thesis
        by (simp add: em_cap_loop.simps[of f cpu n l w]
                      em_cap_loop.simps[of f cpu n "l\<lparr>l_prev_opp_eff := e\<rparr>" w2])
    qed
  qed
qed

text \<open>
  C6. When the integer efficiency \<open>freq div power\<close> of an entry is greater than or equal
  to the previous one, the construction does not fail: the iteration appends a warning to
  the log, records the entry, sets \<open>prev_opp_eff\<close> to the new efficiency (which it does
  whether or not it warned) and goes on with the next index. Whether the construction
  fails somewhere does not depend on the previous efficiency at all.
\<close>

theorem non_monotonic_efficiency_only_warns:
  assumes "l_i l < n"
    and "f (driver w) (l_power l) (l_freq l) cpu = (d, 0, pwr, freq)"
    and "l_prev_freq l < freq" and "pwr \<noteq> 0" and "pwr \<le> EM_CPU_MAX_POWER"
  shows "em_cap_loop f cpu n l w =
           em_cap_loop f cpu n
             \<lparr>l_i = Suc (l_i l), l_freq = freq + 1, l_power = pwr, l_prev_freq = freq,
              l_prev_opp_eff = freq div pwr,
              l_table = (l_table l)[l_i l := (l_table l ! l_i l)\<lparr>power_cs := pwr, frequency := freq\<rparr>]\<rparr>
             (w\<lparr>driver := d, cb_calls := cb_calls w @ [(l_freq l, cpu)],
                klog := klog w @ (if l_prev_opp_eff l \<le> freq div pwr
                                  then [Warn_non_monotonic cpu (l_i l)] else [])\<rparr>) \<and>
         (\<forall>e. isl (em_cap_loop f cpu n (l\<lparr>l_prev_opp_eff := e\<rparr>) w) = isl (em_cap_loop f cpu n l w))"
proof -
  have "em_cap_step f cpu l w =
          Inr (\<lparr>l_i = Suc (l_i l), l_freq = freq + 1, l_power = pwr, l_prev_freq = freq,
              l_prev_opp_eff = freq div pwr,
              l_table = (l_table l)[l_i l := (l_table l ! l_i l)\<lparr>power_cs := pwr, frequency := freq\<rparr>]\<rparr>,
             w\<lparr>driver := d, cb_calls := cb_calls w @ [(l_freq l, cpu)],
                klog := klog w @ (if l_prev_opp_eff l \<le> freq div pwr
                                  then [Warn_non_monotonic cpu (l_i l)] else [])\<rparr>)"
    using assms by (auto simp: em_cap_step_def Let_def)
  with assms(1) show ?thesis
    by (simp add: em_cap_loop.simps[of f cpu n l w] em_cap_loop_eff_indep)
qed

theorem non_monotonic_efficiency_only_warns_witness:
  "em_cap_loop (opp_active_power [(10, 100), (15, 200)]) 0 2
     \<lparr>l_i = 1, l_freq = 101, l_power = 10, l_prev_freq = 100, l_prev_opp_eff = 10,
      l_table = [\<lparr>frequency = 100, power_cs = 10, cost = 0\<rparr>, \<lparr>frequency = 0, power_cs = 0, cost = 0\<rparr>]\<rparr>
     (world_boot\<lparr>cb_calls := [(0, 0)]\<rparr>) =
   Inr (\<lparr>l_i = 2, l_freq = 201, l_power = 15, l_prev_freq = 200, l_prev_opp_eff = 13,
         l_table = [\<lparr>frequency = 100, power_cs = 10, cost = 0\<rparr>, \<lparr>frequency = 200, power_cs = 15, cost = 0\<rparr>]\<rparr>,
        world_boot\<lparr>klog := [Warn_non_monotonic 0 1], cb_calls := [(0, 0), (101, 0)]\<rparr>)"
proof -
  let ?l = "\<lparr>l_i = 1, l_freq = 101, l_power = 10, l_prev_freq = 100, l_prev_opp_eff = 10,
      l_table = [\<lparr>frequency = 100, power_cs = 10, cost = 0\<rparr>, \<lparr>frequency = 0, power_cs = 0, cost = 0\<rparr>]\<rparr>"
  let ?w = "world_boot\<lparr>cb_calls := [(0, 0)]\<rparr>"
  have h1: "l_i ?l < 2" by simp
  have h2: "opp_active_power [(10, 100), (15, 200)] (driver ?w) (l_power ?l) (l_freq ?l) 0 = ((), 0, 15, 200)"
    by (simp add: opp_active_power_def)
  have h3: "l_prev_freq ?l < 200" by simp
  have h4: "(15 :: u64) \<noteq> 0" by simp
  have h5: "(15 :: u64) \<le> EM_CPU_MAX_POWER" by (simp add: EM_CPU_MAX_POWER_def)
  from non_monotonic_efficiency_only_warns[where l = ?l and w = ?w and n = 2 and cpu = 0
      and f = "opp_active_power [(10, 100), (15, 200)]" and d = "()" and pwr = 15 and freq = 200,
      OF h1 h2 h3 h4 h5]
  show ?thesis by (simp add: em_cap_loop.simps world_boot_def)
qed

lemma word_less_inc:
  fixes x y :: u64
  assumes "x < y"
  shows "x < x + 1"
  using assms by uint_arith

text \<open>
  C9 fails as stated: the value passed at iteration \<open>i\<close> is not \<open>i\<close>. In the example the
  callback is asked for 0, 101, 201 and 401, not for 0, 1, 2 and 3.
\<close>

theorem floor_is_not_the_index:
  "em_register_perf_domain env_ok (Some [True, True, False, False]) 4
     (Some (opp_cb [(10, 100), (15, 200), (25, 400), (60, 800)])) world_boot = (0, world_two_cpus) \<and>
   map fst (cb_calls world_two_cpus) = [0, 101, 201, 401] \<and>
   map fst (cb_calls world_two_cpus) \<noteq> map word_of_nat [0..<4]"
  using register_two_cpus by (simp add: world_two_cpus_def upt_conv_Cons)

text \<open>
  C9, amended. During every successful registration the callback is invoked exactly
  \<open>nr_states\<close> times, each time with the first CPU of the span. The frequency passed at
  iteration 0 is 0 and the one passed at iteration \<open>i + 1\<close> is the frequency recorded at
  iteration \<open>i\<close> plus one (\<open>freq\<close> is an in/out argument that the loop increments). These
  values are strictly increasing, and each recorded frequency is at or above the value
  that was passed.
\<close>

theorem callback_calls:
  assumes "em_register_perf_domain env span nr_states cb w = (0, w')"
  shows "\<exists>msk pd. span = Some msk \<and> pd_heap w' = pd_heap w @ [pd] \<and>
           cb_calls w' = cb_calls w @
             map (\<lambda>i. (em_floor (table pd) i, cpumask_first msk)) [0..<unat nr_states] \<and>
           length (cb_calls w') = length (cb_calls w) + unat nr_states \<and>
           em_floor (table pd) 0 = 0 \<and>
           (\<forall>i. em_floor (table pd) (Suc i) = frequency (table pd ! i) + 1) \<and>
           (\<forall>i j. i < j \<and> j < unat nr_states \<longrightarrow> em_floor (table pd) i < em_floor (table pd) j) \<and>
           (\<forall>i<unat nr_states. em_floor (table pd) i \<le> frequency (table pd ! i))"
proof -
  from em_register_success[OF assms] obtain msk c p w2 where
    s: "span = Some msk"
    and cr: "em_create_pd env msk nr_states c (w\<lparr>em_kobject := True\<rparr>) = (Some p, w2)"
    and w': "w' = em_publish p w2 (for_each_cpu msk)" by blast
  define n where "n = unat nr_states"
  from em_create_pd_table[OF cr, folded n_def] obtain pd where
    heap: "pd_heap w2 = pd_heap w @ [pd]"
    and srt: "\<forall>j<n. \<forall>k<j. frequency (table pd ! k) < frequency (table pd ! j)"
    and calls: "cb_calls w2 = cb_calls (w\<lparr>em_kobject := True\<rparr>) @
                  map (\<lambda>j. (em_floor (table pd) j, cpumask_first msk)) [0..<n]"
    by auto
  let ?t = "table pd"
  have a: "pd_heap w' = pd_heap w @ [pd]" using heap w' by (simp add: em_publish_frame)
  have b: "cb_calls w' = cb_calls w @ map (\<lambda>i. (em_floor ?t i, cpumask_first msk)) [0..<n]"
    using calls w' by (simp add: em_publish_frame)
  have c: "length (cb_calls w') = length (cb_calls w) + n" using b by simp
  have d: "em_floor ?t 0 = 0" and e: "\<forall>i. em_floor ?t (Suc i) = frequency (?t ! i) + 1"
    by (simp_all add: em_floor_def)
  have mono: "\<And>k j. k \<le> j \<Longrightarrow> j < n \<Longrightarrow> frequency (?t ! k) \<le> frequency (?t ! j)"
  proof -
    fix k j assume "k \<le> j" "j < n"
    then consider "k < j" | "k = j" by linarith
    then show "frequency (?t ! k) \<le> frequency (?t ! j)"
    proof cases
      case 1
      with srt \<open>j < n\<close> have "frequency (?t ! k) < frequency (?t ! j)" by blast
      then show ?thesis by simp
    next
      case 2
      then show ?thesis by simp
    qed
  qed
  have g: "\<forall>i<n. em_floor ?t i \<le> frequency (?t ! i)"
  proof (intro allI impI)
    fix i assume i: "i < n"
    show "em_floor ?t i \<le> frequency (?t ! i)"
    proof (cases i)
      case 0
      then show ?thesis by (simp add: em_floor_def)
    next
      case (Suc k)
      with srt i have "frequency (?t ! k) < frequency (?t ! i)" by simp
      from inc_le[OF this] Suc show ?thesis by (simp add: em_floor_def)
    qed
  qed
  have f: "\<forall>i j. i < j \<and> j < n \<longrightarrow> em_floor ?t i < em_floor ?t j"
  proof (intro allI impI)
    fix i j assume ij: "i < j \<and> j < n"
    then obtain k where j: "j = Suc k" by (cases j) auto
    from ij j have ik: "i \<le> k" and kn: "k < n" by simp_all
    from ij g have "em_floor ?t i \<le> frequency (?t ! i)" by simp
    also have "\<dots> \<le> frequency (?t ! k)" by (rule mono[OF ik kn])
    also have "\<dots> < frequency (?t ! k) + 1"
    proof -
      from srt ij j have "frequency (?t ! k) < frequency (?t ! j)" by simp
      then show ?thesis by (rule word_less_inc)
    qed
    finally show "em_floor ?t i < em_floor ?t j" by (simp add: j em_floor_def)
  qed
  from s a b c d e f g show ?thesis unfolding n_def by blast
qed

theorem callback_calls_witness:
  "em_register_perf_domain env_ok (Some [True, True, False, False]) 4
     (Some (opp_cb [(10, 100), (15, 200), (25, 400), (60, 800)])) world_boot = (0, world_two_cpus) \<and>
   (\<exists>msk pd. Some [True, True, False, False] = Some msk \<and>
           pd_heap world_two_cpus = pd_heap world_boot @ [pd] \<and>
           cb_calls world_two_cpus = cb_calls world_boot @
             map (\<lambda>i. (em_floor (table pd) i, cpumask_first msk)) [0..<unat (4 :: u32)] \<and>
           length (cb_calls world_two_cpus) = length (cb_calls world_boot) + unat (4 :: u32) \<and>
           em_floor (table pd) 0 = 0 \<and>
           (\<forall>i. em_floor (table pd) (Suc i) = frequency (table pd ! i) + 1) \<and>
           (\<forall>i j. i < j \<and> j < unat (4 :: u32) \<longrightarrow> em_floor (table pd) i < em_floor (table pd) j) \<and>
           (\<forall>i<unat (4 :: u32). em_floor (table pd) i \<le> frequency (table pd ! i)))"
  using callback_calls[OF register_two_cpus] register_two_cpus by simp

lemma register_one_fast_cpu:
  "em_register_perf_domain env_ok (Some [True]) 1 (Some (opp_cb [(2, 9223372036854775808)]))
     world_boot = (0, world_one_fast_cpu)"
  by (simp add: em_eval world_one_fast_cpu_def)

lemma cost_ge_power_word:
  fixes F f p :: u64
  assumes nov: "unat F * unat p < 2 ^ 64" and fz: "f \<noteq> 0" and le: "f \<le> F"
  shows "p \<le> (F * p) div f"
proof -
  have fpos: "0 < unat f" using fz by (simp add: unat_gt_0)
  have "unat (F * p) = unat F * unat p" using nov unat_mult_lem[of F p] by simp
  then have c: "unat ((F * p) div f) = (unat F * unat p) div unat f" by (simp add: unat_div)
  have "unat f \<le> unat F" using le by (simp add: word_le_nat_alt)
  then have "unat f * unat p \<le> unat F * unat p" by (rule mult_le_mono1)
  then have "(unat f * unat p) div unat f \<le> (unat F * unat p) div unat f" by (rule div_le_mono)
  with fpos have "unat p \<le> (unat F * unat p) div unat f" by simp
  with c show ?thesis by (simp add: word_le_nat_alt)
qed

lemma cost_eq_power_word:
  fixes F p :: u64
  assumes nov: "unat F * unat p < 2 ^ 64" and fz: "F \<noteq> 0"
  shows "(F * p) div F = p"
proof -
  have fpos: "0 < unat F" using fz by (simp add: unat_gt_0)
  have "unat (F * p) = unat F * unat p" using nov unat_mult_lem[of F p] by simp
  then have "unat ((F * p) div F) = (unat F * unat p) div unat F" by (simp add: unat_div)
  with fpos have "unat ((F * p) div F) = unat p" by simp
  then show ?thesis by (rule word_unat_eq_iff[THEN iffD2])
qed

lemma no_overflow_below_2p48:
  fixes F p :: u64
  assumes "F < 281474976710656" and "p \<le> EM_CPU_MAX_POWER"
  shows "unat F * unat p < 2 ^ 64"
proof -
  have a: "unat F < 281474976710656" using assms(1) by (simp add: word_less_nat_alt)
  have b: "unat p \<le> 65535" using assms(2) by (simp add: word_le_nat_alt EM_CPU_MAX_POWER_def)
  have "unat F * unat p \<le> unat F * 65535" using b by (rule mult_le_mono2)
  also have "\<dots> \<le> 281474976710656 * 65535" using a by simp
  also have "\<dots> < (2 :: nat) ^ 64" by simp
  finally show ?thesis .
qed

text \<open>
  C10 fails as stated: the product of the last frequency and the power is taken in 64
  bits and can wrap. With a single operating point of frequency \<open>2 ^ 63\<close> and power 2
  the product is 0, so the cost is 0, below the power, also for the last entry.
\<close>

theorem cost_below_power:
  "em_register_perf_domain env_ok (Some [True]) 1 (Some (opp_cb [(2, 9223372036854775808)]))
     world_boot = (0, world_one_fast_cpu) \<and>
   table (pd_heap world_one_fast_cpu ! 0) = [\<lparr>frequency = 9223372036854775808, power_cs = 2, cost = 0\<rparr>] \<and>
   cost (last (table (pd_heap world_one_fast_cpu ! 0))) < power_cs (last (table (pd_heap world_one_fast_cpu ! 0)))"
  using register_one_fast_cpu by (simp add: world_one_fast_cpu_def)

text \<open>
  C10, amended. For every successfully built table, every entry for which the product of
  the last frequency and the entry's power fits in 64 bits has a cost of at least its
  power, and if that holds for the last entry its cost equals its power. The products
  fit whenever the last frequency is below \<open>2 ^ 48\<close>.
\<close>

theorem cost_at_least_power:
  assumes "em_register_perf_domain env span nr_states cb w = (0, w')"
  shows "\<exists>pd. pd_heap w' = pd_heap w @ [pd] \<and> table pd \<noteq> [] \<and>
           (\<forall>e\<in>set (table pd).
              unat (frequency (last (table pd))) * unat (power_cs e) < 2 ^ 64 \<longrightarrow>
              power_cs e \<le> cost e) \<and>
           (unat (frequency (last (table pd))) * unat (power_cs (last (table pd))) < 2 ^ 64 \<longrightarrow>
              cost (last (table pd)) = power_cs (last (table pd))) \<and>
           (frequency (last (table pd)) < 281474976710656 \<longrightarrow>
              (\<forall>e\<in>set (table pd). power_cs e \<le> cost e) \<and>
              cost (last (table pd)) = power_cs (last (table pd)))"
proof -
  from em_register_success[OF assms] obtain msk c p w2 where
    nz: "nr_states \<noteq> 0"
    and cr: "em_create_pd env msk nr_states c (w\<lparr>em_kobject := True\<rparr>) = (Some p, w2)"
    and w': "w' = em_publish p w2 (for_each_cpu msk)" by blast
  define n where "n = unat nr_states"
  from em_create_pd_table[OF cr, folded n_def] obtain pd where
    heap: "pd_heap w2 = pd_heap w @ [pd]"
    and len: "length (table pd) = n"
    and ok: "\<forall>j<n. power_cs (table pd ! j) \<noteq> 0 \<and> power_cs (table pd ! j) \<le> EM_CPU_MAX_POWER \<and>
               frequency (table pd ! j) \<noteq> 0"
    and srt: "\<forall>j<n. \<forall>k<j. frequency (table pd ! k) < frequency (table pd ! j)"
    and cst: "\<forall>j<n. cost (table pd ! j) =
               (frequency (table pd ! (n - 1)) * power_cs (table pd ! j)) div frequency (table pd ! j)"
    by auto
  let ?t = "table pd"
  have npos: "0 < n" using nz by (simp add: n_def unat_gt_0)
  then have ne: "?t \<noteq> []" using len by auto
  have lst: "last ?t = ?t ! (n - 1)" using ne len by (simp add: last_conv_nth)
  let ?F = "frequency (last ?t)"
  have a: "pd_heap w' = pd_heap w @ [pd]" using heap w' by (simp add: em_publish_frame)
  have Fz: "?F \<noteq> 0" using ok npos lst by simp
  have entry: "\<And>e. e \<in> set ?t \<Longrightarrow>
      power_cs e \<le> EM_CPU_MAX_POWER \<and> frequency e \<noteq> 0 \<and> frequency e \<le> ?F \<and>
      cost e = (?F * power_cs e) div frequency e"
  proof -
    fix e assume "e \<in> set ?t"
    then obtain j where j: "j < n" and e: "e = ?t ! j" using len by (auto simp: in_set_conv_nth)
    from j consider "j < n - 1" | "j = n - 1" by linarith
    then have "frequency (?t ! j) \<le> frequency (?t ! (n - 1))"
    proof cases
      case 1
      with srt npos have "frequency (?t ! j) < frequency (?t ! (n - 1))" by simp
      then show ?thesis by simp
    next
      case 2
      then show ?thesis by simp
    qed
    with ok cst j e lst show "power_cs e \<le> EM_CPU_MAX_POWER \<and> frequency e \<noteq> 0 \<and> frequency e \<le> ?F \<and>
      cost e = (?F * power_cs e) div frequency e" by simp
  qed
  have b: "\<forall>e\<in>set ?t. unat ?F * unat (power_cs e) < 2 ^ 64 \<longrightarrow> power_cs e \<le> cost e"
  proof (intro ballI impI)
    fix e assume e: "e \<in> set ?t" and nov: "unat ?F * unat (power_cs e) < 2 ^ 64"
    from entry[OF e] cost_ge_power_word[OF nov, of "frequency e"]
    show "power_cs e \<le> cost e" by simp
  qed
  have lastin: "last ?t \<in> set ?t" using ne by simp
  have c: "unat ?F * unat (power_cs (last ?t)) < 2 ^ 64 \<longrightarrow> cost (last ?t) = power_cs (last ?t)"
  proof
    assume nov: "unat ?F * unat (power_cs (last ?t)) < 2 ^ 64"
    from entry[OF lastin] cost_eq_power_word[OF nov Fz]
    show "cost (last ?t) = power_cs (last ?t)" by simp
  qed
  have d: "?F < 281474976710656 \<longrightarrow>
              (\<forall>e\<in>set ?t. power_cs e \<le> cost e) \<and> cost (last ?t) = power_cs (last ?t)"
  proof
    assume F: "?F < 281474976710656"
    have nov: "\<And>e. e \<in> set ?t \<Longrightarrow> unat ?F * unat (power_cs e) < 2 ^ 64"
      using entry no_overflow_below_2p48[OF F] by blast
    from b c nov lastin show "(\<forall>e\<in>set ?t. power_cs e \<le> cost e) \<and> cost (last ?t) = power_cs (last ?t)"
      by blast
  qed
  from a ne b c d show ?thesis by blast
qed

theorem cost_at_least_power_witness:
  "em_register_perf_domain env_ok (Some [True, True, False, False]) 4
     (Some (opp_cb [(10, 100), (15, 200), (25, 400), (60, 800)])) world_boot = (0, world_two_cpus) \<and>
   (\<exists>pd. pd_heap world_two_cpus = pd_heap world_boot @ [pd] \<and> table pd \<noteq> [] \<and>
           (\<forall>e\<in>set (table pd).
              unat (frequency (last (table pd))) * unat (power_cs e) < 2 ^ 64 \<longrightarrow>
              power_cs e \<le> cost e) \<and>
           (unat (frequency (last (table pd))) * unat (power_cs (last (table pd))) < 2 ^ 64 \<longrightarrow>
              cost (last (table pd)) = power_cs (last (table pd))) \<and>
           (frequency (last (table pd)) < 281474976710656 \<longrightarrow>
              (\<forall>e\<in>set (table pd). power_cs e \<le> cost e) \<and>
              cost (last (table pd)) = power_cs (last (table pd)))) \<and>
   frequency (last (table (pd_heap world_two_cpus ! 0))) < 281474976710656 \<and>
   cost (last (table (pd_heap world_two_cpus ! 0))) = power_cs (last (table (pd_heap world_two_cpus ! 0)))"
  using cost_at_least_power[OF register_two_cpus] register_two_cpus
  by (simp add: world_two_cpus_def world_boot_def)

text \<open>
  C2 fails as stated: the product of the last frequency and the power is a 64-bit product
  and wraps, so the cost is not always the exact quotient. With a single operating point
  of frequency \<open>2 ^ 63\<close> and power 2 the cost stored is 0, while the frequency times the
  power, divided by the frequency, is 2.
\<close>

theorem cost_is_not_the_exact_quotient:
  "em_register_perf_domain env_ok (Some [True]) 1 (Some (opp_cb [(2, 9223372036854775808)]))
     world_boot = (0, world_one_fast_cpu) \<and>
   table (pd_heap world_one_fast_cpu ! 0) =
     [\<lparr>frequency = 9223372036854775808, power_cs = 2, cost = 0\<rparr>] \<and>
   unat (cost (last (table (pd_heap world_one_fast_cpu ! 0)))) = 0 \<and>
   (unat (frequency (last (table (pd_heap world_one_fast_cpu ! 0)))) *
    unat (power_cs (last (table (pd_heap world_one_fast_cpu ! 0))))) div
    unat (frequency (last (table (pd_heap world_one_fast_cpu ! 0)))) = 2"
  using register_one_fast_cpu by (simp add: world_one_fast_cpu_def)

text \<open>
  C2, amended. For every successful registration, the cost of every entry equals the
  frequency of the last entry times the power of that entry, divided by the frequency of
  that entry, computed in 64-bit unsigned arithmetic: the product is reduced modulo
  \<open>2 ^ 64\<close> and the division truncates (the divisor is never zero). The cost is the exact
  truncated quotient for every entry whose product is below \<open>2 ^ 64\<close>, hence for all
  entries when the last frequency is below \<open>2 ^ 48\<close>.
\<close>

theorem cost_formula:
  assumes "em_register_perf_domain env span nr_states cb w = (0, w')"
  shows "\<exists>pd. pd_heap w' = pd_heap w @ [pd] \<and>
           (\<forall>e\<in>set (table pd).
              frequency e \<noteq> 0 \<and>
              cost e = (frequency (last (table pd)) * power_cs e) div frequency e \<and>
              unat (cost e) =
                (unat (frequency (last (table pd))) * unat (power_cs e) mod 2 ^ 64) div unat (frequency e) \<and>
              (unat (frequency (last (table pd))) * unat (power_cs e) < 2 ^ 64 \<longrightarrow>
                 unat (cost e) =
                   (unat (frequency (last (table pd))) * unat (power_cs e)) div unat (frequency e))) \<and>
           (frequency (last (table pd)) < 281474976710656 \<longrightarrow>
              (\<forall>e\<in>set (table pd).
                 unat (cost e) =
                   (unat (frequency (last (table pd))) * unat (power_cs e)) div unat (frequency e)))"
proof -
  from em_register_success[OF assms] obtain msk c p w2 where
    nz: "nr_states \<noteq> 0"
    and cr: "em_create_pd env msk nr_states c (w\<lparr>em_kobject := True\<rparr>) = (Some p, w2)"
    and w': "w' = em_publish p w2 (for_each_cpu msk)" by blast
  define n where "n = unat nr_states"
  from em_create_pd_table[OF cr, folded n_def] obtain pd where
    heap: "pd_heap w2 = pd_heap w @ [pd]"
    and len: "length (table pd) = n"
    and ok: "\<forall>j<n. power_cs (table pd ! j) \<noteq> 0 \<and> power_cs (table pd ! j) \<le> EM_CPU_MAX_POWER \<and>
               frequency (table pd ! j) \<noteq> 0"
    and cst: "\<forall>j<n. cost (table pd ! j) =
               (frequency (table pd ! (n - 1)) * power_cs (table pd ! j)) div frequency (table pd ! j)"
    by auto
  let ?t = "table pd"
  let ?F = "frequency (last ?t)"
  have npos: "0 < n" using nz by (simp add: n_def unat_gt_0)
  then have ne: "?t \<noteq> []" using len by auto
  have lst: "last ?t = ?t ! (n - 1)" using ne len by (simp add: last_conv_nth)
  have a: "pd_heap w' = pd_heap w @ [pd]" using heap w' by (simp add: em_publish_frame)
  have entry: "\<And>e. e \<in> set ?t \<Longrightarrow>
      power_cs e \<le> EM_CPU_MAX_POWER \<and> frequency e \<noteq> 0 \<and>
      cost e = (?F * power_cs e) div frequency e"
  proof -
    fix e assume "e \<in> set ?t"
    then obtain j where "j < n" and "e = ?t ! j" using len by (auto simp: in_set_conv_nth)
    with ok cst lst show "power_cs e \<le> EM_CPU_MAX_POWER \<and> frequency e \<noteq> 0 \<and>
      cost e = (?F * power_cs e) div frequency e" by simp
  qed
  have wrapped: "\<And>e. e \<in> set ?t \<Longrightarrow>
      unat (cost e) = (unat ?F * unat (power_cs e) mod 2 ^ 64) div unat (frequency e)"
  proof -
    fix e assume e: "e \<in> set ?t"
    from entry[OF e] have c: "cost e = (?F * power_cs e) div frequency e" by simp
    have "unat (cost e) = unat (?F * power_cs e) div unat (frequency e)"
      by (simp only: c unat_div)
    also have "unat (?F * power_cs e) = unat ?F * unat (power_cs e) mod 2 ^ 64"
      by (simp add: unat_word_ariths)
    finally show "unat (cost e) = (unat ?F * unat (power_cs e) mod 2 ^ 64) div unat (frequency e)" .
  qed
  have exact: "\<And>e. e \<in> set ?t \<Longrightarrow> unat ?F * unat (power_cs e) < 2 ^ 64 \<Longrightarrow>
      unat (cost e) = (unat ?F * unat (power_cs e)) div unat (frequency e)"
  proof -
    fix e assume e: "e \<in> set ?t" and nov: "unat ?F * unat (power_cs e) < 2 ^ 64"
    from nov have "unat ?F * unat (power_cs e) mod 2 ^ 64 = unat ?F * unat (power_cs e)"
      by (rule mod_less)
    with wrapped[OF e] show "unat (cost e) = (unat ?F * unat (power_cs e)) div unat (frequency e)"
      by simp
  qed
  have b: "\<forall>e\<in>set ?t.
              frequency e \<noteq> 0 \<and>
              cost e = (?F * power_cs e) div frequency e \<and>
              unat (cost e) = (unat ?F * unat (power_cs e) mod 2 ^ 64) div unat (frequency e) \<and>
              (unat ?F * unat (power_cs e) < 2 ^ 64 \<longrightarrow>
                 unat (cost e) = (unat ?F * unat (power_cs e)) div unat (frequency e))"
    using entry wrapped exact by blast
  have c: "?F < 281474976710656 \<longrightarrow>
              (\<forall>e\<in>set ?t. unat (cost e) = (unat ?F * unat (power_cs e)) div unat (frequency e))"
  proof (intro impI ballI)
    fix e assume F: "?F < 281474976710656" and e: "e \<in> set ?t"
    from entry[OF e] have "power_cs e \<le> EM_CPU_MAX_POWER" by simp
    from exact[OF e no_overflow_below_2p48[OF F this]]
    show "unat (cost e) = (unat ?F * unat (power_cs e)) div unat (frequency e)" .
  qed
  from a b c show ?thesis by blast
qed

theorem cost_formula_witness:
  "em_register_perf_domain env_ok (Some [True, True, False, False]) 4
     (Some (opp_cb [(10, 100), (15, 200), (25, 400), (60, 800)])) world_boot = (0, world_two_cpus) \<and>
   (\<exists>pd. pd_heap world_two_cpus = pd_heap world_boot @ [pd] \<and>
           (\<forall>e\<in>set (table pd).
              frequency e \<noteq> 0 \<and>
              cost e = (frequency (last (table pd)) * power_cs e) div frequency e \<and>
              unat (cost e) =
                (unat (frequency (last (table pd))) * unat (power_cs e) mod 2 ^ 64) div unat (frequency e) \<and>
              (unat (frequency (last (table pd))) * unat (power_cs e) < 2 ^ 64 \<longrightarrow>
                 unat (cost e) =
                   (unat (frequency (last (table pd))) * unat (power_cs e)) div unat (frequency e))) \<and>
           (frequency (last (table pd)) < 281474976710656 \<longrightarrow>
              (\<forall>e\<in>set (table pd).
                 unat (cost e) =
                   (unat (frequency (last (table pd))) * unat (power_cs e)) div unat (frequency e)))) \<and>
   frequency (last (table (pd_heap world_two_cpus ! 0))) < 281474976710656 \<and>
   map (\<lambda>e. unat (cost e)) (table (pd_heap world_two_cpus ! 0)) = [80, 60, 50, 60] \<and>
   map (\<lambda>e. (800 * unat (power_cs e)) div unat (frequency e)) (table (pd_heap world_two_cpus ! 0)) =
     [80, 60, 50, 60]"
  using cost_formula[OF register_two_cpus] register_two_cpus
  by (simp add: world_two_cpus_def world_boot_def)

text \<open>
  C5 fails as stated: the check of the power comes third. A sample of power 0 whose
  frequency is not above the previous one (here the very first sample, of frequency 0)
  makes the construction fail for its frequency, not for its power.
\<close>

theorem zero_power_other_failure:
  "em_register_perf_domain env_ok (Some [True]) 1 (Some seq_cb) (world_seq [(0, 0, 0)]) =
     (- EINVAL, world_seq_nonincreasing) \<and>
   klog world_seq_nonincreasing = [Err_non_increasing_freq 0 0] \<and>
   last (klog world_seq_nonincreasing) \<noteq> Err_invalid_power 0 0"
  by (simp add: em_eval world_seq_nonincreasing_def)

text \<open>
  C5, amended. An iteration of the construction fails with the invalid-power error exactly
  when its sample was returned without error, has a frequency above the previous one, and
  has a power that is 0 or exceeds \<^verbatim>\<open>EM_CPU_MAX_POWER\<close>. Consequently, for every
  successful registration the power of every entry is above 0 and at most
  \<^verbatim>\<open>EM_CPU_MAX_POWER\<close>.
\<close>

theorem invalid_power_check:
  "(f (driver w) (l_power l) (l_freq l) cpu = (d, ret, pwr, freq) \<longrightarrow>
      ((\<exists>w_err. em_cap_step f cpu l w = Inl w_err \<and> last (klog w_err) = Err_invalid_power cpu pwr) \<longleftrightarrow>
       (ret = 0 \<and> l_prev_freq l < freq \<and> (pwr = 0 \<or> EM_CPU_MAX_POWER < pwr)))) \<and>
   (em_register_perf_domain env span nr_states cb w0 = (0, w0') \<longrightarrow>
      (\<exists>pd. pd_heap w0' = pd_heap w0 @ [pd] \<and>
            (\<forall>e\<in>set (table pd). 0 < power_cs e \<and> power_cs e \<le> EM_CPU_MAX_POWER)))"
proof (intro conjI impI)
  assume "f (driver w) (l_power l) (l_freq l) cpu = (d, ret, pwr, freq)"
  then show "(\<exists>w_err. em_cap_step f cpu l w = Inl w_err \<and> last (klog w_err) = Err_invalid_power cpu pwr) \<longleftrightarrow>
       (ret = 0 \<and> l_prev_freq l < freq \<and> (pwr = 0 \<or> EM_CPU_MAX_POWER < pwr))"
    by (auto simp: em_cap_step_def Let_def)
next
  assume reg: "em_register_perf_domain env span nr_states cb w0 = (0, w0')"
  from em_register_success[OF reg] obtain msk c p w2 where
    cr: "em_create_pd env msk nr_states c (w0\<lparr>em_kobject := True\<rparr>) = (Some p, w2)"
    and w': "w0' = em_publish p w2 (for_each_cpu msk)" by blast
  from em_create_pd_table[OF cr] obtain pd where
    heap: "pd_heap w2 = pd_heap w0 @ [pd]"
    and len: "length (table pd) = unat nr_states"
    and ok: "\<forall>j<unat nr_states. power_cs (table pd ! j) \<noteq> 0 \<and>
               power_cs (table pd ! j) \<le> EM_CPU_MAX_POWER \<and> frequency (table pd ! j) \<noteq> 0"
    by auto
  have a: "pd_heap w0' = pd_heap w0 @ [pd]" using heap w' by (simp add: em_publish_frame)
  have b: "\<forall>e\<in>set (table pd). 0 < power_cs e \<and> power_cs e \<le> EM_CPU_MAX_POWER"
  proof
    fix e assume "e \<in> set (table pd)"
    then obtain j where "j < unat nr_states" "e = table pd ! j"
      using len by (auto simp: in_set_conv_nth)
    with ok show "0 < power_cs e \<and> power_cs e \<le> EM_CPU_MAX_POWER" by (simp add: word_gt_0)
  qed
  from a b show "\<exists>pd. pd_heap w0' = pd_heap w0 @ [pd] \<and>
            (\<forall>e\<in>set (table pd). 0 < power_cs e \<and> power_cs e \<le> EM_CPU_MAX_POWER)" by blast
qed

theorem invalid_power_check_witness:
  "(\<exists>w_err. em_cap_step seq_active_power 0 (em_locals_init env_ok 1) (world_seq [(0, 0, 100)]) = Inl w_err \<and>
            last (klog w_err) = Err_invalid_power 0 0) \<and>
   (\<exists>pd. pd_heap world_two_cpus = pd_heap world_boot @ [pd] \<and>
         (\<forall>e\<in>set (table pd). 0 < power_cs e \<and> power_cs e \<le> EM_CPU_MAX_POWER))"
proof -
  let ?w = "world_seq [(0, 0, 100)]"
  let ?l = "em_locals_init env_ok 1"
  have h: "seq_active_power (driver ?w) (l_power ?l) (l_freq ?l) 0 = ([], 0, 0, 100)"
    by (simp add: seq_active_power_def world_seq_def)
  have g: "(0 :: int) = 0 \<and> l_prev_freq ?l < 100 \<and> ((0 :: u64) = 0 \<or> EM_CPU_MAX_POWER < 0)"
    by (simp add: em_locals_init_def)
  note t = invalid_power_check[where f = seq_active_power and w = ?w and l = ?l and cpu = 0
      and d = "[]" and ret = 0 and pwr = 0 and freq = 100
      and env = env_ok and span = "Some [True, True, False, False]" and nr_states = 4
      and cb = "Some (opp_cb [(10, 100), (15, 200), (25, 400), (60, 800)])"
      and ?w0.0 = world_boot and w0' = world_two_cpus]
  from t h g register_two_cpus show ?thesis by blast
qed







lemma zip_tl_Cons:
  "set (zip (x # xs) (tl (x # xs))) =
     (if xs = [] then {} else insert (x, hd xs) (set (zip xs (tl xs))))"
  by (cases xs) simp_all




lemma for_each_cpu_none: "for_each_cpu [False, False] = []"
  by (simp add: for_each_cpu_def upt_conv_Cons)

lemma em_check_span_ret:
  "em_check_span env span w pc cs = (r, w1) \<Longrightarrow>
     r = 0 \<or> r = - EINVAL \<or> (r = - EEXIST \<and> (\<exists>cpu\<in>set cs. em_data w cpu \<noteq> None))"
  by (induction cs arbitrary: pc) (auto simp: Let_def split: if_splits)

text \<open>
  C8 fails as stated, twice. A callback without \<^verbatim>\<open>active_power\<close> is only found out in
  \<^verbatim>\<open>em_create_pd\<close>, after the loop over the span, so for a span with a registered CPU
  the call returns \<^verbatim>\<open>-EEXIST\<close>. And only a NULL span is rejected: a span with no
  bit set passes the checks and the call returns 0.
\<close>

theorem inert_callback_or_empty_span:
  "em_register_perf_domain env_ok (Some [True, True, False, False]) 4 (Some inert_cb) world_two_cpus =
     (- EEXIST, world_two_cpus) \<and>
   - EEXIST \<noteq> - EINVAL \<and>
   em_register_perf_domain env_ok (Some [False, False]) 1 (Some (opp_cb [(10, 100)])) world_boot =
     (0, world_no_cpu)"
  by (simp add: em_eval_core cpumask_first_def for_each_cpu_none for_each_cpu_def upt_conv_Cons
        inert_cb_def world_two_cpus_def world_no_cpu_def)

text \<open>
  C8, amended. \<^verbatim>\<open>em_register_perf_domain\<close> returns \<^verbatim>\<open>-EINVAL\<close> and changes nothing
  for every call in which the span is NULL, or \<open>nr_states\<close> is 0, or the callback structure
  is NULL. A call whose callback structure has no \<^verbatim>\<open>active_power\<close> fails as well and
  publishes no domain for any CPU; its error is \<^verbatim>\<open>-EINVAL\<close>, unless an earlier check
  fails first: \<^verbatim>\<open>-ENODEV\<close> when the kobject of the energy model cannot be created,
  \<^verbatim>\<open>-EEXIST\<close> when a CPU of the span has a domain.
\<close>

theorem invalid_arguments:
  "(span = None \<or> nr_states = 0 \<or> cb = None \<longrightarrow>
      em_register_perf_domain env span nr_states cb w = (- EINVAL, w)) \<and>
   (cb = Some c \<and> active_power c = None \<longrightarrow>
      (fst (em_register_perf_domain env span nr_states cb w) = - EINVAL \<or>
       (fst (em_register_perf_domain env span nr_states cb w) = - ENODEV \<and>
          \<not> em_kobject w \<and> \<not> kobject_create_ok env) \<or>
       (fst (em_register_perf_domain env span nr_states cb w) = - EEXIST \<and>
          (\<exists>msk cpu. span = Some msk \<and> cpu \<in> set (for_each_cpu msk) \<and> em_data w cpu \<noteq> None))) \<and>
      em_data (snd (em_register_perf_domain env span nr_states cb w)) = em_data w \<and>
      pd_heap (snd (em_register_perf_domain env span nr_states cb w)) = pd_heap w \<and>
      (\<forall>cpu. em_cpu_get (snd (em_register_perf_domain env span nr_states cb w)) cpu = em_cpu_get w cpu))"
proof (intro conjI impI)
  assume "span = None \<or> nr_states = 0 \<or> cb = None"
  then show "em_register_perf_domain env span nr_states cb w = (- EINVAL, w)"
    by (auto simp: em_register_perf_domain_def split: option.splits)
next
  assume inert: "cb = Some c \<and> active_power c = None"
  let ?R = "em_register_perf_domain env span nr_states cb w"
  have cr: "\<And>msk w0. em_create_pd env msk nr_states c w0 = (None, w0)"
    using inert by (simp add: em_create_pd_def)
  have ret: "fst ?R = - EINVAL \<or>
       (fst ?R = - ENODEV \<and> \<not> em_kobject w \<and> \<not> kobject_create_ok env) \<or>
       (fst ?R = - EEXIST \<and>
          (\<exists>msk cpu. span = Some msk \<and> cpu \<in> set (for_each_cpu msk) \<and> em_data w cpu \<noteq> None))"
  proof (cases span)
    case None
    then show ?thesis by (simp add: em_register_perf_domain_def)
  next
    case (Some msk)
    let ?w0 = "w\<lparr>em_kobject := True\<rparr>"
    obtain r1 w1 where chk: "em_check_span env msk ?w0 0 (for_each_cpu msk) = (r1, w1)"
      by (cases "em_check_span env msk ?w0 0 (for_each_cpu msk)")
    from em_check_span_ret[OF chk]
    have r1: "r1 = 0 \<or> r1 = - EINVAL \<or>
              (r1 = - EEXIST \<and> (\<exists>cpu\<in>set (for_each_cpu msk). em_data w cpu \<noteq> None))"
      by simp
    show ?thesis
    proof (cases "nr_states = 0 \<or> (\<not> em_kobject w \<and> \<not> kobject_create_ok env)")
      case True
      with Some inert show ?thesis by (auto simp: em_register_perf_domain_def)
    next
      case False
      with Some inert chk cr[of msk w1] have "fst ?R = (if r1 \<noteq> 0 then r1 else - EINVAL)"
        by (auto simp: em_register_perf_domain_def)
      with r1 Some show ?thesis by auto
    qed
  qed
  have nz: "fst ?R \<noteq> 0" using ret by (auto simp: EINVAL_def ENODEV_def EEXIST_def)
  have "?R = (fst ?R, snd ?R)" by simp
  from em_register_failure[OF this nz]
  have fr: "em_data (snd ?R) = em_data w" "pd_heap (snd ?R) = pd_heap w" by simp_all
  then have "\<forall>cpu. em_cpu_get (snd ?R) cpu = em_cpu_get w cpu" by (simp add: em_cpu_get_def)
  with ret fr show
    "(fst ?R = - EINVAL \<or>
       (fst ?R = - ENODEV \<and> \<not> em_kobject w \<and> \<not> kobject_create_ok env) \<or>
       (fst ?R = - EEXIST \<and>
          (\<exists>msk cpu. span = Some msk \<and> cpu \<in> set (for_each_cpu msk) \<and> em_data w cpu \<noteq> None)))"
    "em_data (snd ?R) = em_data w" "pd_heap (snd ?R) = pd_heap w"
    "\<forall>cpu. em_cpu_get (snd ?R) cpu = em_cpu_get w cpu"
    by blast+
qed

theorem invalid_arguments_witness:
  "em_register_perf_domain env_ok (Some [True, True, False, False]) 0 (Some inert_cb) world_boot =
     (- EINVAL, world_boot) \<and>
   fst (em_register_perf_domain env_ok (Some [True, True, False, False]) 4 (Some inert_cb) world_boot) =
     - EINVAL \<and>
   em_data (snd (em_register_perf_domain env_ok (Some [True, True, False, False]) 4 (Some inert_cb)
     world_boot)) = em_data world_boot \<and>
   pd_heap (snd (em_register_perf_domain env_ok (Some [True, True, False, False]) 4 (Some inert_cb)
     world_boot)) = pd_heap world_boot"
proof -
  have h1: "Some [True, True, False, False] = None \<or> (0 :: u32) = 0 \<or> Some inert_cb = None" by simp
  have h2: "Some inert_cb = Some inert_cb \<and> active_power inert_cb = None" by (simp add: inert_cb_def)
  have e: "fst (em_register_perf_domain env_ok (Some [True, True, False, False]) 4 (Some inert_cb)
             world_boot) = - EINVAL"
    by (simp add: em_eval inert_cb_def)
  from invalid_arguments[where span = "Some [True, True, False, False]" and nr_states = 0
         and cb = "Some inert_cb" and env = env_ok and w = world_boot] h1
  have a: "em_register_perf_domain env_ok (Some [True, True, False, False]) 0 (Some inert_cb) world_boot =
     (- EINVAL, world_boot)" by blast
  from invalid_arguments[where span = "Some [True, True, False, False]" and nr_states = 4
         and cb = "Some inert_cb" and c = inert_cb and env = env_ok and w = world_boot] h2
  have b: "em_data (snd (em_register_perf_domain env_ok (Some [True, True, False, False]) 4 (Some inert_cb)
     world_boot)) = em_data world_boot \<and>
   pd_heap (snd (em_register_perf_domain env_ok (Some [True, True, False, False]) 4 (Some inert_cb)
     world_boot)) = pd_heap world_boot" by blast
  from a b e show ?thesis by blast
qed

end
